theory Spec2Isabelle
  imports Main "HOL-Library.Word" "HOL-Library.List_Lexorder"
begin

section \<open>Bytes, hashing and the Computation of the order matching engine\<close>

type_synonym byte = "8 word"
type_synonym bytes = "byte list"

text \<open>
  Go's builtin \<^verbatim>\<open>copy(dst, src)\<close> overwrites the first
  \<open>min (len dst) (len src)\<close> elements of \<open>dst\<close> and leaves the rest.
\<close>

definition copy_bytes :: "bytes \<Rightarrow> bytes \<Rightarrow> bytes" where
  "copy_bytes dst src =
     (let n = min (length dst) (length src) in take n src @ drop n dst)"

text \<open>
  Modelled from the spec: \<^verbatim>\<open>crypto.Keccak256(data ...[]byte)\<close> lives in the
  repository's crypto package, which is not among the sources. The spec gives the
  identifier as \<open>keccak256(BuyID \<parallel> SellID)\<close>: the variadic call hashes the
  concatenation of its arguments. The hash function itself is the parameter
  \<open>keccak\<close>.
\<close>

definition Keccak256 :: "(bytes \<Rightarrow> bytes) \<Rightarrow> bytes list \<Rightarrow> bytes" where
  "Keccak256 keccak data = keccak (concat data)"

text \<open>\<^verbatim>\<open>const ComputationBacklogExpiry = 5 * time.Minute\<close>, in nanoseconds
  (a \<^verbatim>\<open>time.Duration\<close> counts nanoseconds).\<close>

definition time_Minute :: int where
  "time_Minute = 60 * 1000000000"

definition ComputationBacklogExpiry :: int where
  "ComputationBacklogExpiry = 5 * time_Minute"

text \<open>\<^verbatim>\<open>type ComputationState int\<close> and its values, numbered by \<^verbatim>\<open>iota\<close>.\<close>

type_synonym ComputationState = int

definition ComputationStateNil :: ComputationState where
  "ComputationStateNil = 0"

definition ComputationStateMatched :: ComputationState where
  "ComputationStateMatched = 1"

definition ComputationStateMismatched :: ComputationState where
  "ComputationStateMismatched = 2"

definition ComputationStateAccepted :: ComputationState where
  "ComputationStateAccepted = 3"

definition ComputationStateRejected :: ComputationState where
  "ComputationStateRejected = 4"

definition ComputationStateSettled :: ComputationState where
  "ComputationStateSettled = 5"

text \<open>
  The struct \<^verbatim>\<open>Computation\<close>. \<open>ID\<close>, \<open>Buy\<close> and \<open>Sell\<close> are
  \<^verbatim>\<open>[32]byte\<close> arrays, \<open>Priority\<close> is a \<^verbatim>\<open>uint64\<close>. A
  \<^verbatim>\<open>time.Time\<close> is read as the number of nanoseconds since the zero time, so
  that the zero value of the struct field is \<open>0\<close>.
\<close>

record Computation =
  ID :: bytes
  State :: ComputationState
  Priority :: "64 word"
  Match :: bool
  Timestamp :: int
  Buy :: bytes
  Sell :: bytes

text \<open>The zero value of \<^verbatim>\<open>ComputationID\<close>, a \<^verbatim>\<open>[32]byte\<close>.\<close>

definition zeroID :: bytes where
  "zeroID = replicate 32 0"

text \<open>
  \<^verbatim>\<open>NewComputation(buy, sell)\<close>: a composite literal that sets \<open>Buy\<close> and
  \<open>Sell\<close> and leaves every other field at its zero value, followed by
  \<^verbatim>\<open>copy(com.ID[:], crypto.Keccak256(buy[:], sell[:]))\<close>.
\<close>

definition NewComputation :: "(bytes \<Rightarrow> bytes) \<Rightarrow> bytes \<Rightarrow> bytes \<Rightarrow> Computation" where
  "NewComputation keccak buy sell =
     (let com = \<lparr>ID = zeroID, State = 0, Priority = 0, Match = False, Timestamp = 0,
                  Buy = buy, Sell = sell\<rparr>
      in com\<lparr>ID := copy_bytes (ID com) (Keccak256 keccak [buy, sell])\<rparr>)"

section \<open>The order matching engine: Ranker drain and backlog sweep\<close>

text \<open>A Go \<^verbatim>\<open>error\<close> value is represented by its message.\<close>

type_synonym error = string

text \<open>A run-time panic of the Go program.\<close>

datatype panic = IndexOutOfRange | CloseOfClosedChannel | CloseOfNilChannel

text \<open>The calls to the logger, one constructor for each message of the engine.\<close>

datatype LogEvent =
    LogResolving Computation
  | LogSettling Computation
  | LogCannotSettle error
  | LogUnexpectedState Computation
  | LogExpiring Computation
  | LogRetrying Computation
  | LogCannotResolve Computation error

text \<open>
  The part of the struct \<^verbatim>\<open>ome\<close> that the two passes read and write, together
  with what they hand to their collaborators: \<open>computationBacklog\<close> is the map
  \<^verbatim>\<open>map[ComputationID]Computation\<close>, \<open>epochHash\<close> is \<^verbatim>\<open>ome.\<xi>.Hash\<close>,
  \<open>matches\<close> holds the values sent on the \<^verbatim>\<open>matches\<close> channel, in order,
  \<open>resolveCalls\<close> the calls of \<^verbatim>\<open>ome.matcher.Resolve\<close>, \<open>settleCalls\<close> the calls
  of \<^verbatim>\<open>ome.settler.Settle\<close>. The type \<open>'f\<close> is \<^verbatim>\<open>order.Fragment\<close>.
\<close>

record 'f Ome =
  computationBacklog :: "bytes \<rightharpoonup> Computation"
  epochHash :: bytes
  matches :: "Computation list"
  resolveCalls :: "(bytes \<times> Computation \<times> 'f \<times> 'f) list"
  settleCalls :: "(bytes \<times> Computation) list"
  logged :: "LogEvent list"

text \<open>
  \<^verbatim>\<open>sendComputationToMatcher\<close>. The parameter \<open>storer\<close> is
  \<^verbatim>\<open>ome.storer.OrderFragment\<close>. The function returns an error exactly when one of
  the two fragments cannot be loaded, and then the Matcher is not called. The
  callback handed to \<^verbatim>\<open>Resolve\<close> runs when the Matcher has a verdict, after the
  pass; the call is recorded.
\<close>

definition sendComputationToMatcher ::
  "(bytes \<Rightarrow> error + 'f) \<Rightarrow> bytes \<Rightarrow> Computation \<Rightarrow> 'f Ome \<Rightarrow> error option \<times> 'f Ome" where
  "sendComputationToMatcher storer \<xi> com st =
     (case storer (Buy com) of
        Inl err \<Rightarrow> (Some err, st)
      | Inr buyFragment \<Rightarrow>
          (case storer (Sell com) of
             Inl err \<Rightarrow> (Some err, st)
           | Inr sellFragment \<Rightarrow>
               (None, st\<lparr>logged := logged st @ [LogResolving com],
                          resolveCalls := resolveCalls st @ [(\<xi>, com, buyFragment, sellFragment)]\<rparr>)))"

text \<open>
  \<^verbatim>\<open>sendComputationToConfirmer\<close> is
  \<^verbatim>\<open>select { case <-done: case matches <- com: }\<close>. While \<open>done\<close> is open only the
  send can proceed, and the computation goes onto the channel. Once \<open>done\<close> is
  closed the first case can proceed; Go chooses among the ready cases at random,
  so the send is no longer certain, and the model takes the first case.
\<close>

definition sendComputationToConfirmer :: "bool \<Rightarrow> Computation \<Rightarrow> 'f Ome \<Rightarrow> 'f Ome" where
  "sendComputationToConfirmer done com st =
     (if done then st else st\<lparr>matches := matches st @ [com]\<rparr>)"

text \<open>\<^verbatim>\<open>sendComputationToSettler\<close>; \<open>settler\<close> is \<^verbatim>\<open>ome.settler.Settle\<close>.\<close>

definition sendComputationToSettler ::
  "(bytes \<Rightarrow> Computation \<Rightarrow> error option) \<Rightarrow> bytes \<Rightarrow> Computation \<Rightarrow> 'f Ome \<Rightarrow> 'f Ome" where
  "sendComputationToSettler settler \<xi> com st =
     (let st1 = st\<lparr>logged := logged st @ [LogSettling com],
                    settleCalls := settleCalls st @ [(\<xi>, com)]\<rparr>
      in case settler \<xi> com of
           None \<Rightarrow> st1
         | Some err \<Rightarrow> st1\<lparr>logged := logged st1 @ [LogCannotSettle err]\<rparr>)"

text \<open>The body of the loop of \<^verbatim>\<open>syncRanker\<close>: the switch on \<^verbatim>\<open>buffer[i].State\<close>.\<close>

definition syncRankerSwitch ::
  "(bytes \<Rightarrow> error + 'f) \<Rightarrow> (bytes \<Rightarrow> Computation \<Rightarrow> error option) \<Rightarrow> bool \<Rightarrow> bytes
     \<Rightarrow> Computation \<Rightarrow> 'f Ome \<Rightarrow> 'f Ome" where
  "syncRankerSwitch storer settler done \<xi> com st =
     (if State com = ComputationStateNil then
        (case sendComputationToMatcher storer \<xi> com st of
           (Some err, st1) \<Rightarrow>
             st1\<lparr>computationBacklog := (computationBacklog st1)(ID com \<mapsto> com)\<rparr>
         | (None, st1) \<Rightarrow> st1)
      else if State com = ComputationStateMatched then
        sendComputationToConfirmer done com st
      else if State com = ComputationStateAccepted then
        sendComputationToSettler settler \<xi> com st
      else st\<lparr>logged := logged st @ [LogUnexpectedState com]\<rparr>)"

text \<open>
  \<^verbatim>\<open>for i := 0; i < n; i++\<close> over the array \<^verbatim>\<open>buffer\<close>. Indexing an array
  beyond its length panics.
\<close>

function syncRankerLoop ::
  "(bytes \<Rightarrow> error + 'f) \<Rightarrow> (bytes \<Rightarrow> Computation \<Rightarrow> error option) \<Rightarrow> bool \<Rightarrow> bytes
     \<Rightarrow> Computation list \<Rightarrow> int \<Rightarrow> nat \<Rightarrow> 'f Ome \<Rightarrow> panic + 'f Ome" where
  "syncRankerLoop storer settler done \<xi> buffer n i st =
     (if int i < n then
        (if i < length buffer then
           syncRankerLoop storer settler done \<xi> buffer n (Suc i)
             (syncRankerSwitch storer settler done \<xi> (buffer ! i) st)
         else Inl IndexOutOfRange)
      else Inr st)"
  by pat_completeness auto
termination
  by (relation "measure (\<lambda>(storer, settler, done, \<xi>, buffer, n, i, st). nat (n - int i))") auto

declare syncRankerLoop.simps [simp del]

text \<open>The zero value of the struct \<^verbatim>\<open>Computation\<close>.\<close>

definition zeroComputation :: Computation where
  "zeroComputation =
     \<lparr>ID = zeroID, State = 0, Priority = 0, Match = False, Timestamp = 0,
      Buy = zeroID, Sell = zeroID\<rparr>"

text \<open>
  \<^verbatim>\<open>syncRanker\<close>. The parameter \<open>ranker\<close> is \<^verbatim>\<open>ome.ranker.Computations\<close>: it
  receives the slice over the whole array and returns what it wrote and its
  count. Writing through the slice cannot change the length of the array, so the
  result is laid over the 128 zero values. The result is the value returned
  (\<open>True\<close>: the caller waits for the next tick) and the state.
\<close>

definition rankerBuffer :: "Computation list \<Rightarrow> Computation list" where
  "rankerBuffer written =
     take 128 written @ drop (length written) (replicate 128 zeroComputation)"

definition syncRanker ::
  "(Computation list \<Rightarrow> int \<times> Computation list) \<Rightarrow> (bytes \<Rightarrow> error + 'f)
     \<Rightarrow> (bytes \<Rightarrow> Computation \<Rightarrow> error option) \<Rightarrow> bool \<Rightarrow> 'f Ome \<Rightarrow> panic + (bool \<times> 'f Ome)" where
  "syncRanker ranker storer settler done st =
     (case ranker (replicate 128 zeroComputation) of
        (n, written) \<Rightarrow>
          (let buffer = rankerBuffer written;
               \<xi> = epochHash st
           in case syncRankerLoop storer settler done \<xi> buffer n 0 st of
                Inl p \<Rightarrow> Inl p
              | Inr st' \<Rightarrow> Inr (n \<noteq> 128, st')))"

text \<open>The computations that a pass dispatches: the first \<open>n\<close> of the buffer.\<close>

definition drained :: "int \<Rightarrow> Computation list \<Rightarrow> Computation list" where
  "drained n written = take (nat n) (rankerBuffer written)"

text \<open>The log entries of the default branch of the switch.\<close>

fun isUnexpectedState :: "LogEvent \<Rightarrow> bool" where
  "isUnexpectedState (LogUnexpectedState com) = True"
| "isUnexpectedState e = False"

text \<open>
  The first loop of \<^verbatim>\<open>syncOrderFragmentBacklog\<close>:
  \<^verbatim>\<open>for _, com := range ome.computationBacklog\<close>. Go fixes no iteration order
  for a map, and \<^verbatim>\<open>time.Now()\<close> is read anew in every iteration: the list
  \<open>visits\<close> gives the keys in the order in which the runtime produces them,
  each with the clock reading of its iteration. An entry that was deleted before
  the iteration reached it is not produced. The loop deletes by \<^verbatim>\<open>com.ID\<close>.
  The result is the state and the filled part of \<^verbatim>\<open>buffer\<close>
  (\<^verbatim>\<open>bufferN\<close> is its length).
\<close>

fun collectBacklog ::
  "(bytes \<times> int) list \<Rightarrow> 'f Ome \<Rightarrow> Computation list \<Rightarrow> 'f Ome \<times> Computation list" where
  "collectBacklog [] st buffer = (st, buffer)"
| "collectBacklog ((k, now) # visits) st buffer =
     (case computationBacklog st k of
        None \<Rightarrow> collectBacklog visits st buffer
      | Some com \<Rightarrow>
          (let st1 = st\<lparr>computationBacklog := (computationBacklog st)(ID com := None)\<rparr>
           in if Timestamp com + ComputationBacklogExpiry < now then
                collectBacklog visits (st1\<lparr>logged := logged st1 @ [LogExpiring com]\<rparr>) buffer
              else
                (let buffer1 = buffer @ [com]
                 in if length buffer1 \<ge> 128 then (st1, buffer1)
                    else collectBacklog visits st1 buffer1)))"

text \<open>The second loop: \<^verbatim>\<open>for i := 0; i < bufferN; i++\<close>, the retries.\<close>

fun retryBacklog ::
  "(bytes \<Rightarrow> error + 'f) \<Rightarrow> bytes \<Rightarrow> Computation list \<Rightarrow> 'f Ome \<Rightarrow> 'f Ome" where
  "retryBacklog storer \<xi> [] st = st"
| "retryBacklog storer \<xi> (com # buffer) st =
     (let st1 = st\<lparr>logged := logged st @ [LogRetrying com]\<rparr>
      in case sendComputationToMatcher storer \<xi> com st1 of
           (Some err, st2) \<Rightarrow>
             retryBacklog storer \<xi> buffer
               (st2\<lparr>logged := logged st2 @ [LogCannotResolve com err],
                     computationBacklog := (computationBacklog st2)(ID com \<mapsto> com)\<rparr>)
         | (None, st2) \<Rightarrow> retryBacklog storer \<xi> buffer st2)"

text \<open>\<^verbatim>\<open>syncOrderFragmentBacklog\<close>, under the lock of the backlog from start to end.\<close>

definition syncOrderFragmentBacklog ::
  "(bytes \<Rightarrow> error + 'f) \<Rightarrow> bytes \<Rightarrow> (bytes \<times> int) list \<Rightarrow> 'f Ome \<Rightarrow> 'f Ome" where
  "syncOrderFragmentBacklog storer \<xi> visits st =
     (case collectBacklog visits st [] of
        (st1, buffer) \<Rightarrow> retryBacklog storer \<xi> buffer st1)"

text \<open>The computations that a sweep retries: the buffer after the first loop.\<close>

definition retriedBySweep :: "(bytes \<times> int) list \<Rightarrow> 'f Ome \<Rightarrow> Computation list" where
  "retriedBySweep visits st = snd (collectBacklog visits st [])"

text \<open>Whether \<^verbatim>\<open>sendComputationToMatcher\<close> returns an error for a computation.\<close>

definition matcherFails :: "(bytes \<Rightarrow> error + 'f) \<Rightarrow> Computation \<Rightarrow> bool" where
  "matcherFails storer com = (isl (storer (Buy com)) \<or> isl (storer (Sell com)))"

text \<open>Every entry of the backlog is stored under its own identifier.\<close>

definition keyedByID :: "(bytes \<rightharpoonup> Computation) \<Rightarrow> bool" where
  "keyedByID m = (\<forall>k com. m k = Some com \<longrightarrow> ID com = k)"

text \<open>
  A total function with 32-byte results (truncate or pad with zero bytes), used
  where the hash parameter has to be instantiated at a concrete input.
\<close>

definition pad32 :: "bytes \<Rightarrow> bytes" where
  "pad32 xs = take 32 (xs @ replicate 32 0)"

text \<open>Concrete computations, one for each branch of the switch, and an engine state.\<close>

definition exNil :: Computation where
  "exNil = \<lparr>ID = [1], State = 0, Priority = 0, Match = False, Timestamp = 0,
            Buy = [1], Sell = [2]\<rparr>"

definition exMatched :: Computation where
  "exMatched = \<lparr>ID = [2], State = 1, Priority = 0, Match = True, Timestamp = 0,
                Buy = [3], Sell = [4]\<rparr>"

definition exAccepted :: Computation where
  "exAccepted = \<lparr>ID = [3], State = 3, Priority = 0, Match = True, Timestamp = 0,
                 Buy = [5], Sell = [6]\<rparr>"

definition exSettled :: Computation where
  "exSettled = \<lparr>ID = [4], State = 5, Priority = 0, Match = True, Timestamp = 0,
                Buy = [7], Sell = [8]\<rparr>"

definition exOme :: "unit Ome" where
  "exOme = \<lparr>computationBacklog = Map.empty, epochHash = [9], matches = [],
            resolveCalls = [], settleCalls = [], logged = []\<rparr>"

text \<open>
  The test of the first loop,
  \<^verbatim>\<open>com.Timestamp.Add(ComputationBacklogExpiry).Before(now)\<close>.
\<close>

definition expiredAt :: "Computation \<Rightarrow> int \<Rightarrow> bool" where
  "expiredAt com now = (Timestamp com + ComputationBacklogExpiry < now)"

text \<open>
  The number of visits that come before the first visit of the key \<open>k\<close> and find
  an entry that has not expired at its visit: the entries that are put into the
  buffer before the iteration reaches \<open>k\<close>.
\<close>

definition unexpiredBefore ::
  "(bytes \<rightharpoonup> Computation) \<Rightarrow> bytes \<Rightarrow> (bytes \<times> int) list \<Rightarrow> nat" where
  "unexpiredBefore m k visits =
     length (filter (\<lambda>(k', now). case m k' of None \<Rightarrow> False | Some com \<Rightarrow> \<not> expiredAt com now)
       (takeWhile (\<lambda>v. fst v \<noteq> k) visits))"

text \<open>
  A backlog of 129 entries for a sweep at minute ten: the entries 0 to 127 were
  inserted at minute ten, the entry 128 at the zero time. The iteration produces
  them in this order, and no fragment is available.
\<close>

definition sweepKey :: "nat \<Rightarrow> bytes" where
  "sweepKey i = replicate 31 0 @ [of_nat i]"

definition sweepNow :: int where
  "sweepNow = 10 * time_Minute"

definition sweepCom :: "nat \<Rightarrow> Computation" where
  "sweepCom i =
     \<lparr>ID = sweepKey i, State = 0, Priority = 0, Match = False,
      Timestamp = (if i < 128 then sweepNow else 0), Buy = sweepKey i, Sell = sweepKey i\<rparr>"

definition sweepOme :: "unit Ome" where
  "sweepOme =
     \<lparr>computationBacklog = map_of (map (\<lambda>i. (sweepKey i, sweepCom i)) [0..<129]),
      epochHash = zeroID, matches = [], resolveCalls = [], settleCalls = [], logged = []\<rparr>"

definition sweepVisits :: "(bytes \<times> int) list" where
  "sweepVisits = map (\<lambda>i. (sweepKey i, sweepNow)) [0..<129]"

definition noFragments :: "bytes \<Rightarrow> error + unit" where
  "noFragments k = Inl ''order fragment not found''"

text \<open>An engine whose backlog holds the single computation \<open>exNil\<close>.\<close>

definition exBacklogOme :: "unit Ome" where
  "exBacklogOme = exOme\<lparr>computationBacklog := Map.empty([1] \<mapsto> exNil)\<rparr>"

section \<open>The stream service\<close>

text \<open>
  What a call can do besides returning: panic, or block for ever on a channel or
  a mutex.
\<close>

datatype 'a outcome = Returned 'a | Panicked panic | Blocked

text \<open>
  A channel: whether it has been closed, and the values sent on it so far.
  Channels and mutexes are references; the store holds their state, and a
  reference is an index into it. A reference beyond the store is \<^verbatim>\<open>nil\<close>.
\<close>

record 'a chan =
  closed :: bool
  sent :: "'a list"

definition make_chan :: "'a chan" where
  "make_chan = \<lparr>closed = False, sent = []\<rparr>"

text \<open>The builtin \<^verbatim>\<open>close(ch)\<close>: closing a nil or a closed channel panics.\<close>

definition close_chan :: "'a chan list \<Rightarrow> nat \<Rightarrow> panic + 'a chan list" where
  "close_chan chs c =
     (if c \<ge> length chs then Inl CloseOfNilChannel
      else if closed (chs ! c) then Inl CloseOfClosedChannel
      else Inr (chs[c := (chs ! c)\<lparr>closed := True\<rparr>]))"

record store =
  doneChans :: "unit chan list"
  mutexes :: "bool list"

text \<open>
  The struct \<^verbatim>\<open>safeStream\<close>: \<open>doneCh\<close> is the field \<^verbatim>\<open>done\<close>, a
  \<^verbatim>\<open>chan struct{}\<close>; \<open>sendMu\<close> and \<open>recvMu\<close> are pointers to mutexes;
  \<open>stream\<close> names the wrapped gRPC stream.
\<close>

record safeStream =
  doneCh :: nat
  sendMu :: nat
  recvMu :: nat
  stream :: nat

text \<open>\<^verbatim>\<open>newSafeStream\<close>: a fresh channel and two fresh mutexes.\<close>

definition newSafeStream :: "store \<Rightarrow> nat \<Rightarrow> safeStream \<times> store" where
  "newSafeStream h grpcStream =
     (\<lparr>doneCh = length (doneChans h), sendMu = length (mutexes h),
       recvMu = Suc (length (mutexes h)), stream = grpcStream\<rparr>,
      h\<lparr>doneChans := doneChans h @ [make_chan], mutexes := mutexes h @ [False, False]\<rparr>)"

text \<open>
  \<^verbatim>\<open>Close\<close>. The receiver is a copy of the struct, but the copy holds the same
  references. \<^verbatim>\<open>Lock\<close> on a mutex that is held blocks. The two deferred
  \<^verbatim>\<open>Unlock\<close> calls run on return and on panic alike.
\<close>

definition Close :: "store \<Rightarrow> safeStream \<Rightarrow> (error option) outcome \<times> store" where
  "Close h s =
     (if sendMu s \<ge> length (mutexes h) \<or> mutexes h ! sendMu s then (Blocked, h)
      else
        (let h1 = h\<lparr>mutexes := (mutexes h)[sendMu s := True]\<rparr>
         in if recvMu s \<ge> length (mutexes h1) \<or> mutexes h1 ! recvMu s then (Blocked, h1)
            else
              (let h2 = h1\<lparr>mutexes := (mutexes h1)[recvMu s := True]\<rparr>;
                   unlocked = (\<lambda>h'. h'\<lparr>mutexes := (mutexes h')[recvMu s := False, sendMu s := False]\<rparr>)
               in case close_chan (doneChans h2) (doneCh s) of
                    Inl p \<Rightarrow> (Panicked p, unlocked h2)
                  | Inr chs \<Rightarrow> (Returned None, unlocked (h2\<lparr>doneChans := chs\<rparr>)))))"

text \<open>
  The messages of the stream service, from the protocol definition:
  \<^verbatim>\<open>StreamAuthentication { bytes signature; string address; }\<close> and
  \<^verbatim>\<open>StreamMessage { StreamAuthentication authentication; bytes data; }\<close>. The
  service reads the authentication through \<^verbatim>\<open>GetStreamAddress()\<close>; an unset
  message field is \<^verbatim>\<open>nil\<close>, and the generated getters are nil-safe.
\<close>

record StreamAuthentication =
  signature :: bytes
  authAddress :: string

record StreamMessage =
  streamAddress :: "StreamAuthentication option"
  messageData :: bytes

text \<open>
  The struct \<^verbatim>\<open>StreamService\<close>: \<open>addr\<close> is the address of the node,
  \<open>connsStream\<close> maps an address to its channel of streams. The field
  \<^verbatim>\<open>verifier\<close> is never read by the code.
\<close>

record StreamService =
  addr :: string
  connsStream :: "string \<rightharpoonup> nat"
  connChans :: "safeStream chan list"

definition NewStreamService :: "string \<Rightarrow> StreamService" where
  "NewStreamService a = \<lparr>addr = a, connsStream = Map.empty, connChans = []\<rparr>"

text \<open>The conversion \<^verbatim>\<open>[]byte(s)\<close> of a string.\<close>

definition bytes_of :: "string \<Rightarrow> bytes" where
  "bytes_of s = map (\<lambda>c. of_nat (of_char c)) s"

text \<open>
  \<^verbatim>\<open>verifyStreamAddress\<close>. The digest \<open>data\<close> is computed and then not used
  (the source marks the verification as still to be written), and the error
  returned is always \<^verbatim>\<open>nil\<close>.
\<close>

definition verifyStreamAddress ::
  "(bytes \<Rightarrow> bytes) \<Rightarrow> StreamService \<Rightarrow> StreamMessage \<Rightarrow> error + string" where
  "verifyStreamAddress keccak service message =
     (let a = (case streamAddress message of
                 None \<Rightarrow> ''''
               | Some sa \<Rightarrow> if authAddress sa \<noteq> '''' then authAddress sa else '''');
          data = bytes_of (''Republic Protocol: connect: from '' @ a @ '' to '' @ addr service);
          data = Keccak256 keccak [data]
      in Inr a)"

text \<open>\<^verbatim>\<open>setupConn\<close> and \<^verbatim>\<open>teardownConn\<close>, each under the mutex of the map.\<close>

definition setupConn :: "StreamService \<Rightarrow> string \<Rightarrow> nat \<times> StreamService" where
  "setupConn service a =
     (case connsStream service a of
        Some ch \<Rightarrow> (ch, service)
      | None \<Rightarrow>
          (length (connChans service),
           service\<lparr>connsStream := (connsStream service)(a \<mapsto> length (connChans service)),
                   connChans := connChans service @ [make_chan]\<rparr>))"

definition teardownConn :: "StreamService \<Rightarrow> string \<Rightarrow> StreamService" where
  "teardownConn service a = service\<lparr>connsStream := (connsStream service)(a := None)\<rparr>"

text \<open>
  \<^verbatim>\<open>Connect\<close>, for a call whose context stays live and whose stream the
  listener takes and later closes: \<open>recv\<close> is the result of the first
  \<^verbatim>\<open>stream.Recv()\<close>. The stream is sent on the channel of the address that
  \<^verbatim>\<open>verifyStreamAddress\<close> returned. The result is the error returned and the
  service afterwards.
\<close>

definition Connect ::
  "(bytes \<Rightarrow> bytes) \<Rightarrow> StreamService \<Rightarrow> store \<Rightarrow> nat \<Rightarrow> error + StreamMessage
     \<Rightarrow> error option \<times> StreamService" where
  "Connect keccak service h grpcStream recv =
     (case recv of
        Inl err \<Rightarrow> (Some err, service)
      | Inr message \<Rightarrow>
          (case verifyStreamAddress keccak service message of
             Inl err \<Rightarrow> (Some err, service)
           | Inr a \<Rightarrow>
               (case setupConn service a of
                  (streams, service1) \<Rightarrow>
                    (let s = fst (newSafeStream h grpcStream);
                         service2 = service1\<lparr>connChans :=
                           (connChans service1)[streams :=
                              (connChans service1 ! streams)
                                \<lparr>sent := sent (connChans service1 ! streams) @ [s]\<rparr>]\<rparr>
                     in (None, teardownConn service2 a)))))"

text \<open>A first message that carries no authentication at all.\<close>

definition unauthenticated :: StreamMessage where
  "unauthenticated = \<lparr>streamAddress = None, messageData = []\<rparr>"

text \<open>The store with no channel and no mutex.\<close>

definition emptyStore :: store where
  "emptyStore = \<lparr>doneChans = [], mutexes = []\<rparr>"

section \<open>The router\<close>

text \<open>
  An \<^verbatim>\<open>identity.Address\<close> is a string. Its method \<^verbatim>\<open>ID()\<close>, the bytes that
  the tiebreak compares, belongs to the identity package, which is not among the
  sources: it is the parameter \<open>idOf\<close> of the functions below.

  Modelled from the spec: a \<^verbatim>\<open>MultiAddress\<close> is a network location together
  with an Address, and \<^verbatim>\<open>multiAddress.Address()\<close> returns that Address.
\<close>

type_synonym Address = string

record MultiAddress =
  network :: string
  maAddress :: Address

text \<open>
  The message \<^verbatim>\<open>rpc.Computation\<close>: the field \<^verbatim>\<open>MultiAddress\<close>, unset in
  every message but a greeting, and the rest of the message.
\<close>

record rpcComputation =
  greetingOf :: "MultiAddress option"
  payload :: bytes

text \<open>
  The calls that open the stream of an arc: \<^verbatim>\<open>router.clientPool.Compute\<close>
  (the local node dials) and \<^verbatim>\<open>router.smpcer.WaitForCompute\<close> (the local node
  waits for the peer), each with the peer and the sender channel it was given.
\<close>

datatype Call = ClientPoolCompute Address nat | WaitForCompute Address nat

fun callPeer :: "Call \<Rightarrow> Address" where
  "callPeer (ClientPoolCompute a c) = a"
| "callPeer (WaitForCompute a c) = a"

fun callChan :: "Call \<Rightarrow> nat" where
  "callChan (ClientPoolCompute a c) = c"
| "callChan (WaitForCompute a c) = c"

text \<open>
  What a splitter reads from: the receiver or the error channel that the call
  with the given number returned, or a channel of order fragments.
\<close>

datatype Source = ReceiverOf nat | ErrsOf nat | FragmentChan nat

text \<open>
  Modelled from the spec: \<^verbatim>\<open>dispatch.Splitter\<close> is not among the sources. It
  is a fan-out with a bounded set of subscriber sinks and one source: \<open>Split\<close>
  attaches the source (once), \<open>Subscribe\<close> adds a sink and fails beyond the
  cap, and every message of the source is offered to every current subscriber.
\<close>

record Splitter =
  maxSubscribers :: int
  splitSource :: "Source option"
  subscribers :: "nat list"

definition NewSplitter :: "int \<Rightarrow> Splitter" where
  "NewSplitter n = \<lparr>maxSubscribers = n, splitSource = None, subscribers = []\<rparr>"

definition Split :: "Source \<Rightarrow> Splitter \<Rightarrow> Splitter" where
  "Split src sp = (case splitSource sp of None \<Rightarrow> sp\<lparr>splitSource := Some src\<rparr> | Some s \<Rightarrow> sp)"

definition Subscribe :: "nat \<Rightarrow> Splitter \<Rightarrow> error + Splitter" where
  "Subscribe sink sp =
     (if int (length (subscribers sp)) \<ge> maxSubscribers sp then Inl ''too many subscribers''
      else Inr (sp\<lparr>subscribers := subscribers sp @ [sink]\<rparr>))"

text \<open>
  The struct \<^verbatim>\<open>Router\<close>. The four maps are the ones guarded by the mutex
  \<^verbatim>\<open>mu\<close>. The last three fields are what the router acts on: the channels of
  computations and of fragments it has made, and the calls it has made to open
  streams. The type \<open>'f\<close> is \<^verbatim>\<open>order.Fragment\<close>.
\<close>

record 'f Router =
  maxConnections :: int
  address :: Address
  multiAddress :: MultiAddress
  orderFragmentSplitterCh :: nat
  orderFragmentSplitter :: Splitter
  computeSenders :: "Address \<rightharpoonup> nat"
  computeReceivers :: "Address \<rightharpoonup> Splitter"
  computeErrs :: "Address \<rightharpoonup> Splitter"
  computeArcs :: "Address \<rightharpoonup> int"
  chans :: "rpcComputation chan list"
  fragmentChans :: "'f chan list"
  calls :: "Call list"

text \<open>
  \<^verbatim>\<open>NewRouter\<close>. It makes the channel \<^verbatim>\<open>orderFragmentSplitterCh\<close> and the
  splitter \<^verbatim>\<open>orderFragmentSplitter\<close>, and does not call \<^verbatim>\<open>Split\<close>.
\<close>

definition NewRouter :: "int \<Rightarrow> MultiAddress \<Rightarrow> 'f Router" where
  "NewRouter maxConns ma =
     \<lparr>maxConnections = maxConns, address = maAddress ma, multiAddress = ma,
      orderFragmentSplitterCh = 0, orderFragmentSplitter = NewSplitter maxConns,
      computeSenders = Map.empty, computeReceivers = Map.empty, computeErrs = Map.empty,
      computeArcs = Map.empty, chans = [], fragmentChans = [make_chan], calls = []\<rparr>"

text \<open>
  \<^verbatim>\<open>OrderFragments\<close>, up to the wait for \<^verbatim>\<open>done\<close>: a new receiver channel
  is subscribed to the fragment splitter; when the subscription fails the
  receiver is closed.
\<close>

definition OrderFragments :: "'f Router \<Rightarrow> 'f Router" where
  "OrderFragments router =
     (let orderFragmentReceiver = length (fragmentChans router);
          router1 = router\<lparr>fragmentChans := fragmentChans router @ [make_chan]\<rparr>
      in case Subscribe orderFragmentReceiver (orderFragmentSplitter router1) of
           Inl err \<Rightarrow>
             router1\<lparr>fragmentChans := fragmentChans router @ [make_chan\<lparr>closed := True\<rparr>]\<rparr>
         | Inr sp \<Rightarrow> router1\<lparr>orderFragmentSplitter := sp\<rparr>)"

text \<open>A message of the source reaches every subscriber of the splitter.\<close>

definition deliver :: "'a \<Rightarrow> nat list \<Rightarrow> 'a chan list \<Rightarrow> 'a chan list" where
  "deliver x sinks chs =
     foldl (\<lambda>cs sink. if sink < length cs then cs[sink := (cs ! sink)\<lparr>sent := sent (cs ! sink) @ [x]\<rparr>]
                        else cs) chs sinks"

text \<open>
  \<^verbatim>\<open>OnOpenOrder\<close> is the send \<^verbatim>\<open>router.orderFragmentSplitterCh <- *orderFragment\<close>
  on an unbuffered channel: it completes when a receiver takes the value, and
  the only receiver a splitter channel can have is the splitter it was attached
  to by \<^verbatim>\<open>Split\<close>. With no receiver the send blocks for ever.
\<close>

definition OnOpenOrder :: "'f Router \<Rightarrow> MultiAddress \<Rightarrow> 'f \<Rightarrow> ('f Router) outcome" where
  "OnOpenOrder router from orderFragment =
     (let ch = orderFragmentSplitterCh router
      in if splitSource (orderFragmentSplitter router) = Some (FragmentChan ch)
            \<and> ch < length (fragmentChans router)
         then Returned (router\<lparr>fragmentChans :=
                deliver orderFragment (ch # subscribers (orderFragmentSplitter router))
                  (fragmentChans router)\<rparr>)
         else Blocked)"

text \<open>
  \<^verbatim>\<open>bytes.Compare\<close> of the Go library: the lexicographic comparison of two
  byte slices, with result \<open>-1\<close>, \<open>0\<close> or \<open>1\<close>.
\<close>

fun bytesCompare :: "bytes \<Rightarrow> bytes \<Rightarrow> int" where
  "bytesCompare [] [] = 0"
| "bytesCompare [] (y # ys) = - 1"
| "bytesCompare (x # xs) [] = 1"
| "bytesCompare (x # xs) (y # ys) =
     (if x < y then - 1 else if y < x then 1 else bytesCompare xs ys)"

text \<open>
  \<^verbatim>\<open>setupCompute\<close>. The sender is a fresh channel. On the dialling side the
  greeting is the first value sent on it (the send completes when the client
  pool takes it). The receiver and error channels returned by the call feed the
  two new splitters.
\<close>

definition setupCompute :: "(Address \<Rightarrow> bytes) \<Rightarrow> 'f Router \<Rightarrow> Address \<Rightarrow> 'f Router" where
  "setupCompute idOf router a =
     (let sender = length (chans router);
          call = length (calls router);
          router1 = router\<lparr>chans := chans router @ [make_chan]\<rparr>;
          router2 =
            (if bytesCompare (idOf (address router1)) (idOf a) < 0 then
               router1\<lparr>calls := calls router1 @ [ClientPoolCompute a sender],
                        chans := (chans router1)[sender := (chans router1 ! sender)
                          \<lparr>sent := sent (chans router1 ! sender) @
                             [\<lparr>greetingOf = Some (multiAddress router1), payload = []\<rparr>]\<rparr>]\<rparr>
             else router1\<lparr>calls := calls router1 @ [WaitForCompute a sender]\<rparr>)
      in router2\<lparr>computeSenders := (computeSenders router2)(a \<mapsto> sender),
                  computeReceivers := (computeReceivers router2)
                    (a \<mapsto> Split (ReceiverOf call) (NewSplitter (maxConnections router2))),
                  computeErrs := (computeErrs router2)
                    (a \<mapsto> Split (ErrsOf call) (NewSplitter (maxConnections router2)))\<rparr>)"

text \<open>
  \<^verbatim>\<open>teardownCompute\<close>: \<^verbatim>\<open>close(router.computeSenders[addr])\<close>, where a
  missing key reads as the nil channel, and the three deletions.
\<close>

definition teardownCompute :: "'f Router \<Rightarrow> Address \<Rightarrow> panic + 'f Router" where
  "teardownCompute router a =
     (case close_chan (chans router)
             (case computeSenders router a of None \<Rightarrow> length (chans router) | Some c \<Rightarrow> c) of
        Inl p \<Rightarrow> Inl p
      | Inr chs \<Rightarrow>
          Inr (router\<lparr>chans := chs,
                      computeSenders := (computeSenders router)(a := None),
                      computeReceivers := (computeReceivers router)(a := None),
                      computeErrs := (computeErrs router)(a := None)\<rparr>))"

text \<open>Reading \<^verbatim>\<open>router.computeArcs[addr]\<close>: a missing key reads as \<open>0\<close>.\<close>

definition arcsOf :: "'f Router \<Rightarrow> Address \<Rightarrow> int" where
  "arcsOf router a = (case computeArcs router a of None \<Rightarrow> 0 | Some n \<Rightarrow> n)"

text \<open>
  The two critical sections of \<^verbatim>\<open>Compute\<close>, each from \<^verbatim>\<open>router.mu.Lock()\<close>
  to \<^verbatim>\<open>router.mu.Unlock()\<close>: the mutex makes each of them one step. The first
  runs before the caller subscribes, the second in the deferred function, after
  the caller has unsubscribed.
\<close>

definition computeEnter :: "(Address \<Rightarrow> bytes) \<Rightarrow> 'f Router \<Rightarrow> Address \<Rightarrow> 'f Router" where
  "computeEnter idOf router a =
     (let router1 = (if computeReceivers router a = None then setupCompute idOf router a
                     else router)
      in router1\<lparr>computeArcs := (computeArcs router1)(a \<mapsto> arcsOf router1 a + 1)\<rparr>)"

definition computeExit :: "'f Router \<Rightarrow> Address \<Rightarrow> panic + 'f Router" where
  "computeExit router a =
     (let router1 = router\<lparr>computeArcs := (computeArcs router)(a \<mapsto> arcsOf router a - 1)\<rparr>
      in if arcsOf router1 a = 0 then teardownCompute router1 a else Inr router1)"

text \<open>
  The states of a router. Besides the router the state counts, for each peer,
  the callers of \<^verbatim>\<open>Compute\<close> that are between their two critical sections: a
  caller runs the second only after the first, and once.
\<close>

inductive reachable ::
  "(Address \<Rightarrow> bytes) \<Rightarrow> int \<Rightarrow> MultiAddress \<Rightarrow> 'f Router \<times> (Address \<Rightarrow> nat) \<Rightarrow> bool"
  for idOf maxConns ma where
  init: "reachable idOf maxConns ma (NewRouter maxConns ma, \<lambda>a. 0)"
| enter: "reachable idOf maxConns ma (router, holders) \<Longrightarrow>
          reachable idOf maxConns ma (computeEnter idOf router a, holders(a := Suc (holders a)))"
| exit: "reachable idOf maxConns ma (router, holders) \<Longrightarrow> 0 < holders a \<Longrightarrow>
         computeExit router a = Inr router' \<Longrightarrow>
         reachable idOf maxConns ma (router', holders(a := holders a - 1))"

text \<open>The arcs to a peer whose stream is open: the calls for it whose sender is not closed.\<close>

definition openArcs :: "'f Router \<Rightarrow> Address \<Rightarrow> nat" where
  "openArcs router a =
     length (filter (\<lambda>call. callPeer call = a \<and> \<not> closed (chans router ! callChan call))
       (calls router))"

text \<open>The role the router took in the last call it made, and the greeting it sent.\<close>

definition greeting :: "'f Router \<Rightarrow> rpcComputation" where
  "greeting router = \<lparr>greetingOf = Some (multiAddress router), payload = []\<rparr>"

text \<open>
  The two outcomes of \<^verbatim>\<open>setupCompute\<close> for a router and a peer: the router
  dials through the client pool and its greeting is the first message on the
  new sender channel, or it waits for the peer and has sent nothing.
\<close>

definition dialsWithGreeting :: "(Address \<Rightarrow> bytes) \<Rightarrow> 'f Router \<Rightarrow> Address \<Rightarrow> bool" where
  "dialsWithGreeting idOf router a =
     (calls (setupCompute idOf router a)
        = calls router @ [ClientPoolCompute a (length (chans router))]
      \<and> sent (chans (setupCompute idOf router a) ! length (chans router)) = [greeting router])"

definition waitsSilently :: "(Address \<Rightarrow> bytes) \<Rightarrow> 'f Router \<Rightarrow> Address \<Rightarrow> bool" where
  "waitsSilently idOf router a =
     (calls (setupCompute idOf router a)
        = calls router @ [WaitForCompute a (length (chans router))]
      \<and> sent (chans (setupCompute idOf router a) ! length (chans router)) = [])"

text \<open>Two nodes, with the bytes of the address string standing for its identifier.\<close>

definition exRouterA :: "unit Router" where
  "exRouterA = NewRouter 8 \<lparr>network = ''10.0.0.1:18514'', maAddress = ''A''\<rparr>"

definition exRouterB :: "unit Router" where
  "exRouterB = NewRouter 8 \<lparr>network = ''10.0.0.2:18514'', maAddress = ''B''\<rparr>"

text \<open>
  The invariant of the router: the count of a peer is the number of callers that
  hold its arc; the three entries of a peer are present exactly when that number
  is positive; every call got its own channel; the sender of a peer is an open
  channel that a call for this peer was given; and a channel that is still open
  is the sender of the peer it was made for.
\<close>

definition arcInv :: "'f Router \<Rightarrow> (Address \<Rightarrow> nat) \<Rightarrow> bool" where
  "arcInv router holders =
     ((\<forall>a. arcsOf router a = int (holders a))
      \<and> (\<forall>a. (computeSenders router a \<noteq> None) = (0 < holders a))
      \<and> (\<forall>a. (computeReceivers router a \<noteq> None) = (0 < holders a))
      \<and> (\<forall>a. (computeErrs router a \<noteq> None) = (0 < holders a))
      \<and> (\<forall>call\<in>set (calls router). callChan call < length (chans router))
      \<and> distinct (map callChan (calls router))
      \<and> (\<forall>a c. computeSenders router a = Some c \<longrightarrow>
            c < length (chans router) \<and> \<not> closed (chans router ! c)
            \<and> (\<exists>call\<in>set (calls router). callPeer call = a \<and> callChan call = c))
      \<and> (\<forall>call\<in>set (calls router). \<not> closed (chans router ! callChan call) \<longrightarrow>
            computeSenders router (callPeer call) = Some (callChan call)))"

text \<open>The router \<open>exRouterA\<close> after one caller has joined the arc to the peer \<open>B\<close>.\<close>

definition exJoined :: "unit Router" where
  "exJoined = computeEnter bytes_of exRouterA ''B''"

definition exHolders :: "Address \<Rightarrow> nat" where
  "exHolders = (\<lambda>a. 0)(''B'' := Suc 0)"

section \<open>Properties of NewComputation\<close>

lemma copy_bytes_same_length: "length src = length dst \<Longrightarrow> copy_bytes dst src = src"
  by (simp add: copy_bytes_def)

lemma length_copy_bytes: "length (copy_bytes dst src) = length dst"
  by (simp add: copy_bytes_def Let_def min_def)

text \<open>
  C1. For order identifiers \<open>b\<close> and \<open>s\<close>, the identifier of
  \<open>NewComputation b s\<close> is the Keccak-256 hash of \<open>b\<close> followed by \<open>s\<close>,
  byte for byte. The hash is a parameter; all that is used of it is that the
  digest of \<open>b @ s\<close> has 32 bytes, the size of the array it is copied into.
\<close>

theorem NewComputation_ID:
  assumes "length (keccak (b @ s)) = 32"
  shows "ID (NewComputation keccak b s) = keccak (b @ s)"
  using assms
  by (simp add: NewComputation_def Keccak256_def zeroID_def copy_bytes_same_length)

theorem NewComputation_ID_witness:
  "length (pad32 ([1, 2] @ [3])) = 32
   \<and> ID (NewComputation pad32 [1, 2] [3]) = [1, 2, 3] @ replicate 29 0"
proof -
  have len: "length (pad32 ([1, 2] @ [3])) = 32"
    by (simp add: pad32_def)
  have "ID (NewComputation pad32 [1, 2] [3]) = pad32 ([1, 2] @ [3])"
    using NewComputation_ID [of pad32 "[1, 2]" "[3]"] len by simp
  also have "\<dots> = [1, 2, 3] @ replicate 29 0"
    by (simp add: pad32_def numeral_eq_Suc)
  finally show ?thesis using len by blast
qed

text \<open>
  C10. \<open>NewComputation b s\<close> keeps the two order identifiers and starts the
  lifecycle: the state is \<open>ComputationStateNil\<close>, \<open>Match\<close> is false, the
  priority is \<open>0\<close> and the timestamp is the zero time.
\<close>

theorem NewComputation_fields:
  "Buy (NewComputation keccak b s) = b
   \<and> Sell (NewComputation keccak b s) = s
   \<and> State (NewComputation keccak b s) = ComputationStateNil
   \<and> Match (NewComputation keccak b s) = False
   \<and> Priority (NewComputation keccak b s) = 0
   \<and> Timestamp (NewComputation keccak b s) = 0"
  by (simp add: NewComputation_def ComputationStateNil_def)

section \<open>The Ranker drain\<close>

lemma syncRankerLoop_foldl:
  "nat n \<le> length buffer \<Longrightarrow>
   syncRankerLoop storer settler dn \<xi> buffer n i st
     = Inr (foldl (\<lambda>s c. syncRankerSwitch storer settler dn \<xi> c s) st (drop i (take (nat n) buffer)))"
proof (induction storer settler dn \<xi> buffer n i st rule: syncRankerLoop.induct)
  case (1 storer settler dn \<xi> buffer n i st)
  show ?case
  proof (cases "int i < n")
    case True
    then have i: "i < nat n" by linarith
    with "1.prems" have ib: "i < length buffer" by linarith
    have d: "drop i (take (nat n) buffer) = buffer ! i # drop (Suc i) (take (nat n) buffer)"
      using i ib by (metis Cons_nth_drop_Suc length_take min.absorb2 "1.prems" nth_take)
    show ?thesis
      using True ib "1.IH" "1.prems" d by (subst syncRankerLoop.simps) simp
  next
    case False
    then have "nat n \<le> i" by linarith
    then show ?thesis using False by (subst syncRankerLoop.simps) simp
  qed
qed

lemma syncRankerLoop_panics:
  "int (length buffer) < n \<Longrightarrow> i \<le> length buffer \<Longrightarrow>
   syncRankerLoop storer settler dn \<xi> buffer n i st = Inl IndexOutOfRange"
proof (induction storer settler dn \<xi> buffer n i st rule: syncRankerLoop.induct)
  case (1 storer settler dn \<xi> buffer n i st)
  show ?case
  proof (cases "i < length buffer")
    case True
    then show ?thesis using "1.IH" "1.prems" by (subst syncRankerLoop.simps) simp
  next
    case False
    then show ?thesis using "1.prems" by (subst syncRankerLoop.simps) simp
  qed
qed


lemma sendComputationToMatcher_error:
  "fst (sendComputationToMatcher storer \<xi> com st) \<noteq> None \<longleftrightarrow> matcherFails storer com"
  by (simp add: sendComputationToMatcher_def matcherFails_def split: sum.splits)

lemma sendComputationToMatcher_fails:
  "matcherFails storer com \<Longrightarrow> snd (sendComputationToMatcher storer \<xi> com st) = st"
  by (auto simp: sendComputationToMatcher_def matcherFails_def split: sum.splits)

lemma sendComputationToMatcher_ok:
  "\<not> matcherFails storer com \<Longrightarrow>
   sendComputationToMatcher storer \<xi> com st =
     (None, st\<lparr>logged := logged st @ [LogResolving com],
                resolveCalls := resolveCalls st @ [(\<xi>, com, projr (storer (Buy com)), projr (storer (Sell com)))]\<rparr>)"
  by (auto simp: sendComputationToMatcher_def matcherFails_def split: sum.splits)

lemma switch_backlog:
  "computationBacklog (syncRankerSwitch storer settler dn \<xi> com st) =
     (if State com = ComputationStateNil \<and> matcherFails storer com
      then (computationBacklog st)(ID com \<mapsto> com) else computationBacklog st)"
proof (cases "matcherFails storer com")
  case True
  then obtain err where "sendComputationToMatcher storer \<xi> com st = (Some err, st)"
    using sendComputationToMatcher_error [of storer \<xi> com st]
      sendComputationToMatcher_fails [of storer com \<xi> st]
    by (cases "sendComputationToMatcher storer \<xi> com st") auto
  with True show ?thesis
    by (simp add: syncRankerSwitch_def sendComputationToConfirmer_def
        sendComputationToSettler_def Let_def split: option.splits)
next
  case False
  then show ?thesis
    by (simp add: syncRankerSwitch_def sendComputationToMatcher_ok sendComputationToConfirmer_def
        sendComputationToSettler_def Let_def split: option.splits)
qed

lemma switch_Nil_fails:
  assumes "State com = ComputationStateNil" "matcherFails storer com"
  shows "syncRankerSwitch storer settler dn \<xi> com st
           = st\<lparr>computationBacklog := (computationBacklog st)(ID com \<mapsto> com)\<rparr>"
proof -
  obtain err where "sendComputationToMatcher storer \<xi> com st = (Some err, st)"
    using assms(2) sendComputationToMatcher_error [of storer \<xi> com st]
      sendComputationToMatcher_fails [of storer com \<xi> st]
    by (cases "sendComputationToMatcher storer \<xi> com st") auto
  then show ?thesis using assms(1) by (simp add: syncRankerSwitch_def)
qed

lemma switch_Nil_ok:
  assumes "State com = ComputationStateNil" "\<not> matcherFails storer com"
  shows "syncRankerSwitch storer settler dn \<xi> com st
           = st\<lparr>logged := logged st @ [LogResolving com],
                resolveCalls := resolveCalls st @
                  [(\<xi>, com, projr (storer (Buy com)), projr (storer (Sell com)))]\<rparr>"
  using assms by (simp add: syncRankerSwitch_def sendComputationToMatcher_ok)

lemma switch_Matched:
  assumes "State com = ComputationStateMatched"
  shows "syncRankerSwitch storer settler dn \<xi> com st
           = (if dn then st else st\<lparr>matches := matches st @ [com]\<rparr>)"
  using assms
  by (simp add: syncRankerSwitch_def sendComputationToConfirmer_def
      ComputationStateNil_def ComputationStateMatched_def)

lemma switch_Accepted:
  assumes "State com = ComputationStateAccepted"
  shows "syncRankerSwitch storer settler dn \<xi> com st
           = sendComputationToSettler settler \<xi> com st"
  using assms
  by (simp add: syncRankerSwitch_def ComputationStateAccepted_def
      ComputationStateNil_def ComputationStateMatched_def)

lemma switch_other:
  assumes "State com \<noteq> ComputationStateNil" "State com \<noteq> ComputationStateMatched"
    "State com \<noteq> ComputationStateAccepted"
  shows "syncRankerSwitch storer settler dn \<xi> com st
           = st\<lparr>logged := logged st @ [LogUnexpectedState com]\<rparr>"
  using assms by (simp add: syncRankerSwitch_def)

lemmas switch_eqs = switch_Nil_fails switch_Nil_ok switch_Matched switch_Accepted switch_other

lemma ComputationState_neq:
  "ComputationStateNil \<noteq> ComputationStateMatched"
  "ComputationStateNil \<noteq> ComputationStateAccepted"
  "ComputationStateMatched \<noteq> ComputationStateAccepted"
  "ComputationStateMatched \<noteq> ComputationStateNil"
  "ComputationStateAccepted \<noteq> ComputationStateNil"
  "ComputationStateAccepted \<noteq> ComputationStateMatched"
  by (simp_all add: ComputationStateNil_def ComputationStateMatched_def
      ComputationStateAccepted_def)

lemma state_cases:
  fixes com :: Computation
  obtains "State com = ComputationStateNil" "matcherFails storer com"
  | "State com = ComputationStateNil" "\<not> matcherFails storer com"
  | "State com = ComputationStateMatched" "State com \<noteq> ComputationStateNil"
  | "State com = ComputationStateAccepted" "State com \<noteq> ComputationStateNil" "State com \<noteq> ComputationStateMatched"
  | "State com \<noteq> ComputationStateNil" "State com \<noteq> ComputationStateMatched"
    "State com \<noteq> ComputationStateAccepted"
  by (auto simp: ComputationStateNil_def ComputationStateMatched_def ComputationStateAccepted_def)

lemma switch_matches:
  "matches (syncRankerSwitch storer settler dn \<xi> com st) =
     matches st @ (if \<not> dn \<and> State com = ComputationStateMatched then [com] else [])"
  by (rule state_cases [of com storer])
     (simp_all add: switch_eqs ComputationState_neq sendComputationToSettler_def Let_def
        split: option.splits)

lemma switch_resolveCalls:
  "resolveCalls (syncRankerSwitch storer settler dn \<xi> com st) =
     resolveCalls st @ (if State com = ComputationStateNil \<and> \<not> matcherFails storer com
        then [(\<xi>, com, projr (storer (Buy com)), projr (storer (Sell com)))] else [])"
  by (rule state_cases [of com storer])
     (simp_all add: switch_eqs ComputationState_neq sendComputationToSettler_def Let_def
        split: option.splits)

lemma switch_settleCalls:
  "settleCalls (syncRankerSwitch storer settler dn \<xi> com st) =
     settleCalls st @ (if State com = ComputationStateAccepted then [(\<xi>, com)] else [])"
  by (rule state_cases [of com storer])
     (simp_all add: switch_eqs ComputationState_neq sendComputationToSettler_def Let_def
        split: option.splits)

lemma switch_unexpected:
  "filter isUnexpectedState (logged (syncRankerSwitch storer settler dn \<xi> com st)) =
     filter isUnexpectedState (logged st) @
       (if State com \<noteq> ComputationStateNil \<and> State com \<noteq> ComputationStateMatched
           \<and> State com \<noteq> ComputationStateAccepted then [LogUnexpectedState com] else [])"
  by (rule state_cases [of com storer])
     (simp_all add: switch_eqs ComputationState_neq sendComputationToSettler_def Let_def
        split: option.splits)

lemma switch_epochHash:
  "epochHash (syncRankerSwitch storer settler dn \<xi> com st) = epochHash st"
  by (rule state_cases [of com storer])
     (simp_all add: switch_eqs ComputationState_neq sendComputationToSettler_def Let_def
        split: option.splits)

lemma drain_matches:
  "matches (foldl (\<lambda>s c. syncRankerSwitch storer settler dn \<xi> c s) st coms) =
     matches st @ (if dn then [] else filter (\<lambda>c. State c = ComputationStateMatched) coms)"
  by (induction coms arbitrary: st) (simp_all add: switch_matches)

lemma drain_resolveCalls:
  "resolveCalls (foldl (\<lambda>s c. syncRankerSwitch storer settler dn \<xi> c s) st coms) =
     resolveCalls st @
       map (\<lambda>c. (\<xi>, c, projr (storer (Buy c)), projr (storer (Sell c))))
         (filter (\<lambda>c. State c = ComputationStateNil \<and> \<not> matcherFails storer c) coms)"
  by (induction coms arbitrary: st) (simp_all add: switch_resolveCalls)

lemma drain_settleCalls:
  "settleCalls (foldl (\<lambda>s c. syncRankerSwitch storer settler dn \<xi> c s) st coms) =
     settleCalls st @
       map (Pair \<xi>) (filter (\<lambda>c. State c = ComputationStateAccepted) coms)"
  by (induction coms arbitrary: st) (simp_all add: switch_settleCalls)

lemma drain_unexpected:
  "filter isUnexpectedState
     (logged (foldl (\<lambda>s c. syncRankerSwitch storer settler dn \<xi> c s) st coms)) =
     filter isUnexpectedState (logged st) @
       map LogUnexpectedState
         (filter (\<lambda>c. State c \<noteq> ComputationStateNil \<and> State c \<noteq> ComputationStateMatched
                       \<and> State c \<noteq> ComputationStateAccepted) coms)"
  by (induction coms arbitrary: st) (simp_all add: switch_unexpected)

lemma drain_backlog:
  "computationBacklog (foldl (\<lambda>s c. syncRankerSwitch storer settler dn \<xi> c s) st coms) =
     foldl (\<lambda>m c. m(ID c \<mapsto> c)) (computationBacklog st)
       (filter (\<lambda>c. State c = ComputationStateNil \<and> matcherFails storer c) coms)"
  by (induction coms arbitrary: st) (simp_all add: switch_backlog)

lemma length_rankerBuffer: "length (rankerBuffer written) = 128"
  by (simp add: rankerBuffer_def min_def)

text \<open>
  C6. One pass of the Ranker drain. The Ranker is handed a buffer of 128
  computations and returns a count \<open>n\<close>; the pass dispatches the first \<open>n\<close>
  of them by state. A computation in state Nil goes to the Matcher, and enters the
  backlog under its own identifier when that call returns an error; one in state
  Matched is sent on the matches channel, provided the \<open>done\<close> channel is
  open; one in state Accepted is handed to the Settler with the epoch hash read
  at the start of the pass; any other state is
  logged as an error and nothing else happens to it. The pass returns \<open>True\<close>
  (wait for the next tick) exactly when fewer than 128 computations were
  returned. This holds of every pass whose count is within the buffer; the send
  on the matches channel is certain only while the \<open>done\<close> channel is open.
\<close>

theorem syncRanker_drain:
  assumes "ranker (replicate 128 zeroComputation) = (n, written)" and "n \<le> 128"
  shows "\<exists>st'. syncRanker ranker storer settler dn st = Inr (n < 128, st')
     \<and> length (drained n written) \<le> 128
     \<and> computationBacklog st' =
         foldl (\<lambda>m c. m(ID c \<mapsto> c)) (computationBacklog st)
           (filter (\<lambda>c. State c = ComputationStateNil \<and> matcherFails storer c) (drained n written))
     \<and> resolveCalls st' = resolveCalls st @
         map (\<lambda>c. (epochHash st, c, projr (storer (Buy c)), projr (storer (Sell c))))
           (filter (\<lambda>c. State c = ComputationStateNil \<and> \<not> matcherFails storer c) (drained n written))
     \<and> (\<not> dn \<longrightarrow> matches st' = matches st @
         filter (\<lambda>c. State c = ComputationStateMatched) (drained n written))
     \<and> settleCalls st' = settleCalls st @
         map (Pair (epochHash st)) (filter (\<lambda>c. State c = ComputationStateAccepted) (drained n written))
     \<and> filter isUnexpectedState (logged st') = filter isUnexpectedState (logged st) @
         map LogUnexpectedState
           (filter (\<lambda>c. State c \<noteq> ComputationStateNil \<and> State c \<noteq> ComputationStateMatched
                         \<and> State c \<noteq> ComputationStateAccepted) (drained n written))"
proof -
  let ?st' = "foldl (\<lambda>s c. syncRankerSwitch storer settler dn (epochHash st) c s) st (drained n written)"
  have "nat n \<le> length (rankerBuffer written)"
    using assms(2) by (simp add: length_rankerBuffer)
  then have loop: "syncRankerLoop storer settler dn (epochHash st) (rankerBuffer written) n 0 st = Inr ?st'"
    by (simp add: syncRankerLoop_foldl drained_def)
  have wait: "(n \<noteq> 128) = (n < 128)"
    using assms(2) by linarith
  have run: "syncRanker ranker storer settler dn st = Inr (n < 128, ?st')"
    using assms(1) loop wait by (simp add: syncRanker_def Let_def)
  have len: "length (drained n written) \<le> 128"
    by (simp add: drained_def length_rankerBuffer)
  show ?thesis
    using run len
    by (intro exI [of _ ?st'] conjI)
       (simp_all add: drain_backlog drain_resolveCalls drain_matches drain_settleCalls
          drain_unexpected)
qed

theorem syncRanker_drain_witness:
  "\<exists>st'. syncRanker (\<lambda>buffer. (4, [exNil, exMatched, exAccepted, exSettled])) (\<lambda>k. Inl ''missing'') (\<lambda>\<xi> c. None) False exOme = Inr (True, st')
     \<and> computationBacklog st' = Map.empty([1] \<mapsto> exNil)
     \<and> resolveCalls st' = []
     \<and> matches st' = [exMatched]
     \<and> settleCalls st' = [([9], exAccepted)]
     \<and> filter isUnexpectedState (logged st') = [LogUnexpectedState exSettled]"
proof -
  have d: "drained 4 [exNil, exMatched, exAccepted, exSettled] = [exNil, exMatched, exAccepted, exSettled]"
    by (simp add: drained_def rankerBuffer_def)
  have r: "(\<lambda>buffer. (4::int, [exNil, exMatched, exAccepted, exSettled])) (replicate 128 zeroComputation) = (4, [exNil, exMatched, exAccepted, exSettled])"
    by simp
  have s: "State exNil = ComputationStateNil" "State exMatched = ComputationStateMatched"
    "State exAccepted = ComputationStateAccepted" "State exSettled = 5" "ID exNil = [1]" "Buy exNil = [1]"
    by (simp_all add: exNil_def exMatched_def exAccepted_def exSettled_def ComputationStateNil_def
        ComputationStateMatched_def ComputationStateAccepted_def)
  have e: "epochHash exOme = [9]" "computationBacklog exOme = Map.empty" "resolveCalls exOme = []"
    "matches exOme = []" "settleCalls exOme = []" "logged exOme = []"
    by (simp_all add: exOme_def)
  have f: "matcherFails (\<lambda>k. Inl ''missing'' :: error + unit) c = True" for c
    by (simp add: matcherFails_def)
  show ?thesis
    using syncRanker_drain [OF r, where dn = False and storer = "\<lambda>k. Inl ''missing''"
        and settler = "\<lambda>\<xi> c. None" and st = exOme]
    unfolding d
    by (simp add: s e f ComputationState_neq ComputationStateNil_def
         ComputationStateMatched_def ComputationStateAccepted_def)
qed

text \<open>
  A pass that runs after \<open>done\<close> has been closed (\<^verbatim>\<open>Run\<close> tests \<open>done\<close> only
  before it starts a pass): the Ranker returns one computation in state Matched,
  the \<^verbatim>\<open>select\<close> of \<^verbatim>\<open>sendComputationToConfirmer\<close> takes the case
  \<^verbatim>\<open><-done\<close>, and the pass ends with the matches channel as it was, empty.
\<close>

theorem syncRanker_done_closed_counterexample:
  "State exMatched = ComputationStateMatched
   \<and> syncRanker (\<lambda>buffer. (1, [exMatched])) (\<lambda>k. Inl ''missing'') (\<lambda>\<xi> c. None) True exOme
       = Inr (True, exOme)
   \<and> matches exOme = []"
proof -
  have s: "State exMatched = ComputationStateMatched"
    by (simp add: exMatched_def ComputationStateMatched_def)
  have b: "nat 1 \<le> length (rankerBuffer [exMatched])"
    by (simp add: length_rankerBuffer)
  have t: "take (nat 1) (rankerBuffer [exMatched]) = [exMatched]"
    by (simp add: rankerBuffer_def)
  have l: "syncRankerLoop (\<lambda>k. Inl ''missing'' :: error + unit) (\<lambda>\<xi> c. None) True (epochHash exOme)
             (rankerBuffer [exMatched]) 1 0 exOme = Inr exOme"
    unfolding syncRankerLoop_foldl [OF b] t
    by (simp add: switch_Matched [OF s])
  have r: "syncRanker (\<lambda>buffer. (1, [exMatched])) (\<lambda>k. Inl ''missing'') (\<lambda>\<xi> c. None) True exOme
       = Inr (True, exOme)"
    by (simp add: syncRanker_def Let_def l)
  show ?thesis using s r by (simp add: exOme_def)
qed

section \<open>The backlog sweep\<close>

lemma matcher_backlog:
  "computationBacklog (snd (sendComputationToMatcher storer \<xi> com st)) = computationBacklog st"
  by (simp add: sendComputationToMatcher_def split: sum.splits)

lemma collect_keeps_None:
  "computationBacklog st k = None \<Longrightarrow>
   computationBacklog (fst (collectBacklog vs st buf)) k = None"
proof (induction vs arbitrary: st buf)
  case Nil
  then show ?case by simp
next
  case (Cons v vs)
  obtain k' t where v: "v = (k', t)" by (cases v)
  show ?case using Cons.prems
    by (auto simp: v Let_def Cons.IH split: option.splits)
qed

lemma collect_only_removes:
  "computationBacklog (fst (collectBacklog vs st buf)) k = Some c \<Longrightarrow>
   computationBacklog st k = Some c"
proof (induction vs arbitrary: st buf)
  case Nil
  then show ?case by simp
next
  case (Cons v vs)
  obtain k' t where v: "v = (k', t)" by (cases v)
  show ?case
  proof (cases "computationBacklog st k'")
    case None
    then show ?thesis using Cons.prems Cons.IH by (simp add: v)
  next
    case (Some c')
    let ?m1 = "(computationBacklog st)(ID c' := None)"
    let ?st1 = "st\<lparr>computationBacklog := ?m1\<rparr>"
    have m1: "?m1 k = Some c"
    proof (cases "Timestamp c' + ComputationBacklogExpiry < t")
      case True
      then have "computationBacklog (fst (collectBacklog vs
          (?st1\<lparr>logged := logged ?st1 @ [LogExpiring c']\<rparr>) buf)) k = Some c"
        using Cons.prems Some by (simp add: v Let_def)
      from Cons.IH [OF this] show ?thesis by simp
    next
      case False
      show ?thesis
      proof (cases "length (buf @ [c']) \<ge> 128")
        case True
        then show ?thesis using Cons.prems Some False by (simp add: v Let_def)
      next
        case nb: False
        then have "computationBacklog (fst (collectBacklog vs ?st1 (buf @ [c']))) k = Some c"
          using Cons.prems Some False by (simp add: v Let_def)
        from Cons.IH [OF this] show ?thesis by simp
      qed
    qed
    then show ?thesis by (simp split: if_splits)
  qed
qed


lemma collect_None:
  "computationBacklog st k' = None \<Longrightarrow>
   collectBacklog ((k', t) # vs) st buf = collectBacklog vs st buf"
  by (simp add: collectBacklog.simps)

lemma collect_expired:
  "computationBacklog st k' = Some c' \<Longrightarrow> expiredAt c' t \<Longrightarrow>
   collectBacklog ((k', t) # vs) st buf =
     collectBacklog vs
       (st\<lparr>computationBacklog := (computationBacklog st)(ID c' := None),
           logged := logged st @ [LogExpiring c']\<rparr>) buf"
  by (simp add: collectBacklog.simps expiredAt_def Let_def)

lemma collect_break:
  "computationBacklog st k' = Some c' \<Longrightarrow> \<not> expiredAt c' t \<Longrightarrow> 127 \<le> length buf \<Longrightarrow>
   collectBacklog ((k', t) # vs) st buf =
     (st\<lparr>computationBacklog := (computationBacklog st)(ID c' := None)\<rparr>, buf @ [c'])"
  by (simp add: collectBacklog.simps expiredAt_def Let_def)

lemma collect_continue:
  "computationBacklog st k' = Some c' \<Longrightarrow> \<not> expiredAt c' t \<Longrightarrow> length buf < 127 \<Longrightarrow>
   collectBacklog ((k', t) # vs) st buf =
     collectBacklog vs
       (st\<lparr>computationBacklog := (computationBacklog st)(ID c' := None)\<rparr>) (buf @ [c'])"
  by (simp add: collectBacklog.simps expiredAt_def Let_def)

declare collectBacklog.simps(2) [simp del]

lemma collect_cases:
  fixes st :: "'f Ome" and k' :: bytes and t :: int and buf :: "Computation list"
  obtains (absent) "computationBacklog st k' = None"
  | (expired) c' where "computationBacklog st k' = Some c'" "expiredAt c' t"
  | (full) c' where "computationBacklog st k' = Some c'" "\<not> expiredAt c' t" "127 \<le> length buf"
  | (room) c' where "computationBacklog st k' = Some c'" "\<not> expiredAt c' t" "length buf < 127"
proof (cases "computationBacklog st k'")
  case None
  then show ?thesis using absent by simp
next
  case (Some c')
  then show ?thesis using expired [of c'] full [of c'] room [of c']
    by (cases "expiredAt c' t"; cases "127 \<le> length buf") (auto simp: not_le)
qed

lemma collect_sources:
  "com \<in> set (snd (collectBacklog vs st buf)) \<Longrightarrow>
   com \<in> set buf \<or>
   (\<exists>k t. (k, t) \<in> set vs \<and> computationBacklog st k = Some com \<and> \<not> expiredAt com t)"
proof (induction vs arbitrary: st buf)
  case Nil
  then show ?case by simp
next
  case (Cons v vs)
  obtain k' t where v: "v = (k', t)" by (cases v)
  show ?case
  proof (cases rule: collect_cases [where st=st and k'=k' and t=t and buf=buf])
    case absent
    then show ?thesis using Cons.prems Cons.IH [of st buf] by (auto simp: v collect_None)
  next
    case (expired c')
    let ?st1 = "st\<lparr>computationBacklog := (computationBacklog st)(ID c' := None),
           logged := logged st @ [LogExpiring c']\<rparr>"
    from Cons.prems have "com \<in> set (snd (collectBacklog vs ?st1 buf))"
      by (simp add: v collect_expired [OF expired])
    from Cons.IH [OF this] show ?thesis by (auto split: if_splits)
  next
    case (full c')
    then show ?thesis using Cons.prems by (auto simp: v collect_break)
  next
    case (room c')
    let ?st1 = "st\<lparr>computationBacklog := (computationBacklog st)(ID c' := None)\<rparr>"
    from Cons.prems have "com \<in> set (snd (collectBacklog vs ?st1 (buf @ [c'])))"
      by (simp add: v collect_continue [OF room])
    from Cons.IH [OF this] show ?thesis using room(1,2) by (auto simp: v split: if_splits)
  qed
qed

lemma keyedByID_delete: "keyedByID m \<Longrightarrow> keyedByID (m(k := None))"
  by (simp add: keyedByID_def)

lemma keyedByID_D: "keyedByID m \<Longrightarrow> m k = Some com \<Longrightarrow> ID com = k"
  by (simp add: keyedByID_def)

lemma collect_distinct:
  "keyedByID (computationBacklog st) \<Longrightarrow> distinct (map ID buf) \<Longrightarrow>
   (\<forall>c\<in>set buf. computationBacklog st (ID c) = None) \<Longrightarrow>
   distinct (map ID (snd (collectBacklog vs st buf)))"
proof (induction vs arbitrary: st buf)
  case Nil
  then show ?case by simp
next
  case (Cons v vs)
  obtain k' t where v: "v = (k', t)" by (cases v)
  show ?case
  proof (cases rule: collect_cases [where st=st and k'=k' and t=t and buf=buf])
    case absent
    then show ?thesis using Cons.prems Cons.IH [of st buf] by (simp add: v collect_None)
  next
    case (expired c')
    let ?st1 = "st\<lparr>computationBacklog := (computationBacklog st)(ID c' := None),
           logged := logged st @ [LogExpiring c']\<rparr>"
    have k1: "keyedByID (computationBacklog ?st1)"
      using keyedByID_delete [OF Cons.prems(1), of "ID c'"] by simp
    have b1: "\<forall>c\<in>set buf. computationBacklog ?st1 (ID c) = None"
      using Cons.prems(3) by simp
    show ?thesis
      using Cons.IH [OF k1 Cons.prems(2) b1] by (simp add: v collect_expired [OF expired])
  next
    case (full c')
    have "ID c' \<notin> ID ` set buf"
      using Cons.prems(3) full(1) keyedByID_D [OF Cons.prems(1) full(1)] by auto
    then show ?thesis using Cons.prems(2) by (simp add: v collect_break [OF full])
  next
    case (room c')
    let ?st1 = "st\<lparr>computationBacklog := (computationBacklog st)(ID c' := None)\<rparr>"
    have n: "ID c' \<notin> ID ` set buf"
      using Cons.prems(3) room(1) keyedByID_D [OF Cons.prems(1) room(1)] by auto
    have k1: "keyedByID (computationBacklog ?st1)"
      using keyedByID_delete [OF Cons.prems(1), of "ID c'"] by simp
    have d1: "distinct (map ID (buf @ [c']))"
      using Cons.prems(2) n by simp
    have b1: "\<forall>c\<in>set (buf @ [c']). computationBacklog ?st1 (ID c) = None"
      using Cons.prems(3) by simp
    show ?thesis
      using Cons.IH [OF k1 d1 b1] by (simp add: v collect_continue [OF room])
  qed
qed


lemma retry_other:
  "\<forall>com\<in>set buf. ID com \<noteq> k \<Longrightarrow>
   computationBacklog (retryBacklog storer \<xi> buf st) k = computationBacklog st k"
proof (induction buf arbitrary: st)
  case Nil
  then show ?case by simp
next
  case (Cons com buf)
  let ?st1 = "st\<lparr>logged := logged st @ [LogRetrying com]\<rparr>"
  obtain err st2 where r: "sendComputationToMatcher storer \<xi> com ?st1 = (err, st2)"
    by (cases "sendComputationToMatcher storer \<xi> com ?st1")
  have b: "computationBacklog st2 = computationBacklog st"
    using matcher_backlog [of storer \<xi> com ?st1] r by simp
  show ?case using Cons.prems Cons.IH b r
    by (cases err) (auto simp: Let_def)
qed

lemma retry_fails:
  assumes "matcherFails storer com"
  shows "\<exists>err. retryBacklog storer \<xi> (com # buf) st =
     retryBacklog storer \<xi> buf
       (st\<lparr>logged := logged st @ [LogRetrying com, LogCannotResolve com err],
           computationBacklog := (computationBacklog st)(ID com \<mapsto> com)\<rparr>)"
proof -
  let ?st1 = "st\<lparr>logged := logged st @ [LogRetrying com]\<rparr>"
  obtain err where "sendComputationToMatcher storer \<xi> com ?st1 = (Some err, ?st1)"
    using assms sendComputationToMatcher_error [of storer \<xi> com ?st1]
      sendComputationToMatcher_fails [of storer com \<xi> ?st1]
    by (cases "sendComputationToMatcher storer \<xi> com ?st1") auto
  then show ?thesis by (auto simp: Let_def)
qed

lemma retry_reinserts:
  "distinct (map ID buf) \<Longrightarrow> c \<in> set buf \<Longrightarrow> matcherFails storer c \<Longrightarrow>
   computationBacklog (retryBacklog storer \<xi> buf st) (ID c) = Some c"
proof (induction buf arbitrary: st)
  case Nil
  then show ?case by simp
next
  case (Cons com buf)
  show ?case
  proof (cases "com = c")
    case True
    obtain err where r: "retryBacklog storer \<xi> (c # buf) st =
      retryBacklog storer \<xi> buf
       (st\<lparr>logged := logged st @ [LogRetrying c, LogCannotResolve c err],
           computationBacklog := (computationBacklog st)(ID c \<mapsto> c)\<rparr>)"
      using retry_fails [OF Cons.prems(3)] by blast
    have o: "\<forall>x\<in>set buf. ID x \<noteq> ID c"
      using Cons.prems(1) True by (auto simp: image_iff)
    show ?thesis unfolding True r retry_other [OF o] by simp
  next
    case False
    then have c: "c \<in> set buf" using Cons.prems(2) by simp
    have d: "distinct (map ID buf)" using Cons.prems(1) by simp
    let ?st1 = "st\<lparr>logged := logged st @ [LogRetrying com]\<rparr>"
    obtain err st2 where r: "sendComputationToMatcher storer \<xi> com ?st1 = (err, st2)"
      by (cases "sendComputationToMatcher storer \<xi> com ?st1")
    show ?thesis using Cons.IH [OF d c Cons.prems(3)] r
      by (cases err) (simp_all add: Let_def)
  qed
qed

lemma length_filter_mono:
  "(\<And>x. x \<in> set xs \<Longrightarrow> P x \<Longrightarrow> Q x) \<Longrightarrow> length (filter P xs) \<le> length (filter Q xs)"
  by (induction xs) auto

lemma unexpiredBefore_delete:
  "unexpiredBefore (m(k' := None)) k vs \<le> unexpiredBefore m k vs"
  unfolding unexpiredBefore_def
  by (rule length_filter_mono) (auto split: option.splits if_splits)

lemma unexpiredBefore_Cons:
  "k' \<noteq> k \<Longrightarrow> unexpiredBefore m k ((k', t) # vs) =
     (case m k' of None \<Rightarrow> 0 | Some com \<Rightarrow> if expiredAt com t then 0 else 1)
       + unexpiredBefore m k vs"
  by (simp add: unexpiredBefore_def split: option.splits)

lemma collect_reaches:
  "keyedByID (computationBacklog st) \<Longrightarrow> computationBacklog st k = Some c \<Longrightarrow>
   (\<forall>(k', t)\<in>set vs. expiredAt c t) \<Longrightarrow> k \<in> fst ` set vs \<Longrightarrow>
   length buf + unexpiredBefore (computationBacklog st) k vs < 128 \<Longrightarrow>
   computationBacklog (fst (collectBacklog vs st buf)) k = None"
proof (induction vs arbitrary: st buf)
  case Nil
  then show ?case by simp
next
  case (Cons v vs)
  obtain k' t where v: "v = (k', t)" by (cases v)
  show ?case
  proof (cases "k' = k")
    case True
    have e: "expiredAt c t" using Cons.prems(3) by (simp add: v)
    have i: "ID c = k" using keyedByID_D [OF Cons.prems(1,2)] .
    have s: "computationBacklog st k' = Some c" using True Cons.prems(2) by simp
    show ?thesis
      unfolding v collect_expired [OF s e]
      by (rule collect_keeps_None) (simp add: i)
  next
    case False
    then have kin: "k \<in> fst ` set vs" using Cons.prems(4) by (auto simp: v)
    have ex: "\<forall>(k', t)\<in>set vs. expiredAt c t" using Cons.prems(3) by simp
    note ub = unexpiredBefore_Cons [OF False, of "computationBacklog st" t vs]
    show ?thesis
    proof (cases rule: collect_cases [where st=st and k'=k' and t=t and buf=buf])
      case absent
      have "length buf + unexpiredBefore (computationBacklog st) k vs < 128"
        using Cons.prems(5) ub absent by (simp add: v)
      from Cons.IH [OF Cons.prems(1,2) ex kin this] show ?thesis
        by (simp add: v collect_None [OF absent])
    next
      case (expired c')
      let ?st1 = "st\<lparr>computationBacklog := (computationBacklog st)(ID c' := None),
           logged := logged st @ [LogExpiring c']\<rparr>"
      have i: "ID c' = k'" using keyedByID_D [OF Cons.prems(1) expired(1)] .
      have k1: "keyedByID (computationBacklog ?st1)"
        using keyedByID_delete [OF Cons.prems(1), of "ID c'"] by simp
      have c1: "computationBacklog ?st1 k = Some c" using Cons.prems(2) False i by simp
      have "unexpiredBefore (computationBacklog ?st1) k vs
              \<le> unexpiredBefore (computationBacklog st) k vs"
        using unexpiredBefore_delete [of "computationBacklog st" "ID c'" k vs] by simp
      then have "length buf + unexpiredBefore (computationBacklog ?st1) k vs < 128"
        using Cons.prems(5) ub expired by (simp add: v)
      from Cons.IH [OF k1 c1 ex kin this] show ?thesis
        by (simp add: v collect_expired [OF expired])
    next
      case (full c')
      then have False using Cons.prems(5) ub by (simp add: v)
      then show ?thesis ..
    next
      case (room c')
      let ?st1 = "st\<lparr>computationBacklog := (computationBacklog st)(ID c' := None)\<rparr>"
      have i: "ID c' = k'" using keyedByID_D [OF Cons.prems(1) room(1)] .
      have k1: "keyedByID (computationBacklog ?st1)"
        using keyedByID_delete [OF Cons.prems(1), of "ID c'"] by simp
      have c1: "computationBacklog ?st1 k = Some c" using Cons.prems(2) False i by simp
      have "unexpiredBefore (computationBacklog ?st1) k vs
              \<le> unexpiredBefore (computationBacklog st) k vs"
        using unexpiredBefore_delete [of "computationBacklog st" "ID c'" k vs] by simp
      then have "length (buf @ [c']) + unexpiredBefore (computationBacklog ?st1) k vs < 128"
        using Cons.prems(5) ub room by (simp add: v)
      from Cons.IH [OF k1 c1 ex kin this] show ?thesis
        by (simp add: v collect_continue [OF room])
    qed
  qed
qed

text \<open>
  C5, as the code has it. A computation that is stored in the backlog under its
  own identifier and has expired at the start of a sweep is absent from the
  backlog after the sweep, and is not among the computations the sweep retries,
  provided that the iteration reaches it before the buffer is full: fewer than
  128 entries that have not expired at their visit come before it in the
  iteration order. The clock does not run backwards during the sweep.
\<close>

theorem sweep_drops_expired:
  assumes keyed: "keyedByID (computationBacklog st)"
    and entry: "computationBacklog st k = Some c"
    and expired: "expiredAt c now0"
    and clock: "\<forall>(k', t)\<in>set visits. now0 \<le> t"
    and visited: "k \<in> fst ` set visits"
    and room: "unexpiredBefore (computationBacklog st) k visits < 128"
  shows "computationBacklog (syncOrderFragmentBacklog storer \<xi> visits st) k = None
         \<and> c \<notin> set (retriedBySweep visits st)"
proof -
  obtain st1 buffer where cb: "collectBacklog visits st [] = (st1, buffer)"
    by (cases "collectBacklog visits st []")
  have ex: "\<forall>(k', t)\<in>set visits. expiredAt c t"
    using expired clock by (auto simp: expiredAt_def)
  have gone: "computationBacklog st1 k = None"
    using collect_reaches [OF keyed entry ex visited, of "[]"] room cb by simp
  have src: "\<exists>k' t. (k', t) \<in> set visits \<and> computationBacklog st k' = Some com \<and> \<not> expiredAt com t"
    if "com \<in> set buffer" for com
    using collect_sources [of com visits st "[]"] that cb by simp
  have other: "\<forall>com\<in>set buffer. ID com \<noteq> k"
  proof
    fix com assume "com \<in> set buffer"
    from src [OF this] obtain k' t where v: "(k', t) \<in> set visits"
      and s: "computationBacklog st k' = Some com" and n: "\<not> expiredAt com t" by blast
    show "ID com \<noteq> k"
    proof
      assume "ID com = k"
      then have "k' = k" using keyedByID_D [OF keyed s] by simp
      then have "com = c" using s entry by simp
      then show False using n ex v by auto
    qed
  qed
  have notin: "c \<notin> set buffer"
  proof
    assume "c \<in> set buffer"
    from src [OF this] obtain k' t where "(k', t) \<in> set visits" "\<not> expiredAt c t" by blast
    then show False using ex by auto
  qed
  show ?thesis
    using retry_other [OF other, of storer \<xi> st1] gone notin cb
    by (simp add: syncOrderFragmentBacklog_def retriedBySweep_def)
qed

text \<open>
  C8. A computation that the sweep retries and whose retry fails is back in the
  backlog after the sweep, under its identifier, and it is the very record that
  was stored there before the sweep: the timestamp and every other field are
  the ones it had when it was removed.
\<close>

theorem sweep_reinserts_unchanged:
  assumes keyed: "keyedByID (computationBacklog st)"
    and retried: "c \<in> set (retriedBySweep visits st)"
    and fails: "matcherFails storer c"
  shows "computationBacklog st (ID c) = Some c
         \<and> computationBacklog (syncOrderFragmentBacklog storer \<xi> visits st) (ID c) = Some c"
proof -
  obtain st1 buffer where cb: "collectBacklog visits st [] = (st1, buffer)"
    by (cases "collectBacklog visits st []")
  have inbuf: "c \<in> set buffer" using retried cb by (simp add: retriedBySweep_def)
  obtain k' t where "computationBacklog st k' = Some c"
    using collect_sources [of c visits st "[]"] inbuf cb by auto
  then have before: "computationBacklog st (ID c) = Some c"
    using keyedByID_D [OF keyed] by auto
  have d: "distinct (map ID buffer)"
    using collect_distinct [OF keyed, of "[]" visits] cb by simp
  show ?thesis
    using retry_reinserts [OF d inbuf fails, of \<xi> st1] before cb
    by (simp add: syncOrderFragmentBacklog_def)
qed

lemma collect_stops:
  "(\<forall>(k', t)\<in>set vs1. \<exists>c'. computationBacklog st k' = Some c' \<and> ID c' = k' \<and> \<not> expiredAt c' t) \<Longrightarrow>
   distinct (map fst vs1) \<Longrightarrow> length buf + length vs1 = 128 \<Longrightarrow> vs1 \<noteq> [] \<Longrightarrow>
   k \<notin> fst ` set vs1 \<Longrightarrow>
   computationBacklog (fst (collectBacklog (vs1 @ vs2) st buf)) k = computationBacklog st k"
proof (induction vs1 arbitrary: st buf)
  case Nil
  then show ?case by simp
next
  case (Cons v vs1)
  obtain k' t where v: "v = (k', t)" by (cases v)
  obtain c' where s: "computationBacklog st k' = Some c'" and i: "ID c' = k'"
    and n: "\<not> expiredAt c' t"
    using Cons.prems(1) by (auto simp: v)
  have kk: "k \<noteq> k'" using Cons.prems(5) by (auto simp: v)
  let ?st1 = "st\<lparr>computationBacklog := (computationBacklog st)(ID c' := None)\<rparr>"
  show ?case
  proof (cases "vs1 = []")
    case True
    then have "127 \<le> length buf" using Cons.prems(3) by simp
    from collect_break [OF s n this] show ?thesis using kk i by (simp add: v)
  next
    case False
    then have l: "length buf < 127" using Cons.prems(3) by (cases vs1) auto
    have nk: "k' \<notin> fst ` set vs1" using Cons.prems(2) by (simp add: v)
    have p1: "\<forall>(k'', t)\<in>set vs1. \<exists>c''. computationBacklog ?st1 k'' = Some c'' \<and> ID c'' = k''
        \<and> \<not> expiredAt c'' t"
    proof (clarify)
      fix k'' t'' assume m: "(k'', t'') \<in> set vs1"
      then obtain c'' where c: "computationBacklog st k'' = Some c''" "ID c'' = k''"
        "\<not> expiredAt c'' t''"
        using Cons.prems(1) by fastforce
      have "k'' \<noteq> k'" using nk m by force
      then show "\<exists>c''. computationBacklog ?st1 k'' = Some c'' \<and> ID c'' = k''
        \<and> \<not> expiredAt c'' t''"
        using c i by simp
    qed
    have "computationBacklog (fst (collectBacklog (vs1 @ vs2) ?st1 (buf @ [c']))) k
            = computationBacklog ?st1 k"
      using Cons.prems(2,3,5) False by (intro Cons.IH [OF p1]) (auto simp: v)
    then show ?thesis using kk i by (simp add: v collect_continue [OF s n l])
  qed
qed


lemma sweepKey_inj: "i < 256 \<Longrightarrow> j < 256 \<Longrightarrow> sweepKey i = sweepKey j \<Longrightarrow> i = j"
proof -
  assume i: "i < 256" and j: "j < 256" and e: "sweepKey i = sweepKey j"
  then have "(of_nat i :: 8 word) = of_nat j" by (simp add: sweepKey_def)
  then have "unat (of_nat i :: 8 word) = unat (of_nat j :: 8 word)" by simp
  then show "i = j" using i j by (simp add: unat_of_nat)
qed

lemma sweepKeys_distinct: "distinct (map sweepKey [0..<129])"
proof -
  have "inj_on sweepKey (set [0..<129])"
  proof (rule inj_onI)
    fix x y assume "x \<in> set [0..<129]" "y \<in> set [0..<129]" and e: "sweepKey x = sweepKey y"
    then have "x < 256" "y < 256" by auto
    then show "x = y" using e by (rule sweepKey_inj)
  qed
  then show ?thesis by (simp add: distinct_map)
qed

lemma sweepOme_entry:
  "i < 129 \<Longrightarrow> computationBacklog sweepOme (sweepKey i) = Some (sweepCom i)"
proof -
  assume i: "i < 129"
  have d: "distinct (map fst (map (\<lambda>i. (sweepKey i, sweepCom i)) [0..<129]))"
    using sweepKeys_distinct by (simp add: comp_def)
  have "(sweepKey i, sweepCom i) \<in> set (map (\<lambda>i. (sweepKey i, sweepCom i)) [0..<129])"
    using i by auto
  then show ?thesis using map_of_is_SomeI [OF d] by (simp add: sweepOme_def)
qed

lemma sweepOme_keyed: "keyedByID (computationBacklog sweepOme)"
  unfolding keyedByID_def
proof (intro allI impI)
  fix k com assume "computationBacklog sweepOme k = Some com"
  then have "(k, com) \<in> set (map (\<lambda>i. (sweepKey i, sweepCom i)) [0..<129])"
    by (auto simp: sweepOme_def dest: map_of_SomeD)
  then show "ID com = k" by (auto simp: sweepCom_def)
qed

lemma sweepVisits_split:
  "sweepVisits = map (\<lambda>i. (sweepKey i, sweepNow)) [0..<128] @ [(sweepKey 128, sweepNow)]"
proof -
  have e: "(129::nat) = Suc 128" by simp
  have "[0..<129] = [0..<128] @ [128]"
    unfolding e by (rule upt_Suc_append) simp
  then show ?thesis by (simp only: sweepVisits_def map_append list.map)
qed


lemma sweepNow_expiry:
  "expiredAt (sweepCom 128) sweepNow" "i < 128 \<Longrightarrow> \<not> expiredAt (sweepCom i) sweepNow"
  by (simp_all add: expiredAt_def sweepCom_def sweepNow_def ComputationBacklogExpiry_def
      time_Minute_def)

text \<open>
  C5 as stated fails. The loop leaves the map iteration as soon as 128
  computations are in the buffer. In a backlog of 129 entries whose iteration
  produces 128 fresh entries first, the expired entry 128 is never reached: it
  is still in the backlog when the sweep returns.
\<close>

theorem sweep_keeps_expired_counterexample:
  "computationBacklog sweepOme (sweepKey 128) = Some (sweepCom 128)
   \<and> Timestamp (sweepCom 128) + ComputationBacklogExpiry < sweepNow
   \<and> computationBacklog (syncOrderFragmentBacklog noFragments zeroID sweepVisits sweepOme)
       (sweepKey 128) = Some (sweepCom 128)"
proof -
  let ?vs1 = "map (\<lambda>i. (sweepKey i, sweepNow)) [0..<128]"
  let ?vs2 = "[(sweepKey 128, sweepNow)]"
  obtain st1 buffer where cb: "collectBacklog sweepVisits sweepOme [] = (st1, buffer)"
    by (cases "collectBacklog sweepVisits sweepOme []")
  have entry: "computationBacklog sweepOme (sweepKey 128) = Some (sweepCom 128)"
    by (rule sweepOme_entry) simp
  have p: "\<forall>(k', t)\<in>set ?vs1. \<exists>c'. computationBacklog sweepOme k' = Some c' \<and> ID c' = k'
      \<and> \<not> expiredAt c' t"
  proof (clarify)
    fix k' t assume "(k', t) \<in> set ?vs1"
    then obtain i where i: "i < 128" "k' = sweepKey i" "t = sweepNow" by auto
    then have "computationBacklog sweepOme k' = Some (sweepCom i)"
      using sweepOme_entry [of i] by simp
    then show "\<exists>c'. computationBacklog sweepOme k' = Some c' \<and> ID c' = k' \<and> \<not> expiredAt c' t"
      using i sweepNow_expiry(2) [of i] by (simp add: sweepCom_def)
  qed
  have sub: "distinct (map sweepKey [0..<128])"
  proof -
    have "inj_on sweepKey (set [0..<128])"
    proof (rule inj_onI)
      fix x y assume "x \<in> set [0..<128]" "y \<in> set [0..<128]" and e: "sweepKey x = sweepKey y"
      then have "x < 256" "y < 256" by auto
      then show "x = y" using e by (rule sweepKey_inj)
    qed
    then show ?thesis by (simp add: distinct_map)
  qed
  have d: "distinct (map fst ?vs1)" using sub by (simp add: comp_def)
  have notin: "sweepKey 128 \<notin> fst ` set ?vs1"
  proof
    assume "sweepKey 128 \<in> fst ` set ?vs1"
    then obtain i where "i < 128" "sweepKey 128 = sweepKey i" by auto
    then show False using sweepKey_inj [of 128 i] by simp
  qed
  have kept: "computationBacklog st1 (sweepKey 128) = Some (sweepCom 128)"
    using collect_stops [OF p d _ _ notin, of "[]" ?vs2] cb entry
    by (simp add: sweepVisits_split)
  have other: "\<forall>com\<in>set buffer. ID com \<noteq> sweepKey 128"
  proof
    fix com assume "com \<in> set buffer"
    then obtain k' t where v: "(k', t) \<in> set sweepVisits"
      and s: "computationBacklog sweepOme k' = Some com" and n: "\<not> expiredAt com t"
      using collect_sources [of com sweepVisits sweepOme "[]"] cb by auto
    have t: "t = sweepNow" using v by (auto simp: sweepVisits_def)
    show "ID com \<noteq> sweepKey 128"
    proof
      assume "ID com = sweepKey 128"
      then have "k' = sweepKey 128" using keyedByID_D [OF sweepOme_keyed s] by simp
      then have "com = sweepCom 128" using s entry by simp
      then show False using n t sweepNow_expiry(1) by simp
    qed
  qed
  have "computationBacklog (syncOrderFragmentBacklog noFragments zeroID sweepVisits sweepOme)
       (sweepKey 128) = Some (sweepCom 128)"
    using retry_other [OF other, of noFragments zeroID st1] kept cb
    by (simp add: syncOrderFragmentBacklog_def)
  then show ?thesis using entry sweepNow_expiry(1) by (simp add: expiredAt_def)
qed


lemma exBacklogOme_facts:
  "keyedByID (computationBacklog exBacklogOme)"
  "computationBacklog exBacklogOme [1] = Some exNil"
  "ID exNil = [1]"
  by (simp_all add: exBacklogOme_def exNil_def keyedByID_def)

theorem sweep_drops_expired_witness:
  "computationBacklog exBacklogOme [1] = Some exNil
   \<and> expiredAt exNil sweepNow
   \<and> computationBacklog
        (syncOrderFragmentBacklog noFragments [9] [([1], sweepNow)] exBacklogOme) [1] = None
   \<and> exNil \<notin> set (retriedBySweep [([1], sweepNow)] exBacklogOme)"
proof -
  have e: "expiredAt exNil sweepNow"
    by (simp add: expiredAt_def exNil_def sweepNow_def ComputationBacklogExpiry_def
        time_Minute_def)
  have c: "\<forall>(k', t)\<in>set [([1::byte], sweepNow)]. sweepNow \<le> t" by simp
  have v: "[1] \<in> fst ` set [([1::byte], sweepNow)]" by simp
  have u: "unexpiredBefore (computationBacklog exBacklogOme) [1] [([1], sweepNow)] < 128"
    by (simp add: unexpiredBefore_def)
  show ?thesis
    using sweep_drops_expired [OF exBacklogOme_facts(1,2) e c v u, of noFragments "[9]"]
      exBacklogOme_facts(2) e
    by simp
qed

theorem sweep_reinserts_unchanged_witness:
  "exNil \<in> set (retriedBySweep [([1], 0)] exBacklogOme)
   \<and> matcherFails noFragments exNil
   \<and> computationBacklog exBacklogOme (ID exNil) = Some exNil
   \<and> computationBacklog
        (syncOrderFragmentBacklog noFragments [9] [([1], 0)] exBacklogOme) (ID exNil) = Some exNil"
proof -
  have n: "\<not> expiredAt exNil 0"
    by (simp add: expiredAt_def exNil_def ComputationBacklogExpiry_def time_Minute_def)
  have r: "exNil \<in> set (retriedBySweep [([1], 0)] exBacklogOme)"
    unfolding retriedBySweep_def
    by (subst collect_continue [OF exBacklogOme_facts(2) n]) simp_all
  have f: "matcherFails noFragments exNil"
    by (simp add: matcherFails_def noFragments_def)
  show ?thesis
    using sweep_reinserts_unchanged [OF exBacklogOme_facts(1) r f, of "[9]"] r f
    by simp
qed

section \<open>The stream service: closing and authentication\<close>

text \<open>
  C9. For a safeStream whose mutexes are free and whose \<open>done\<close> channel is
  open (as \<open>newSafeStream\<close> makes it), the first \<open>Close\<close> returns \<open>nil\<close>;
  a second \<open>Close\<close> on the same safeStream closes the closed channel again and
  panics.
\<close>

theorem Close_not_idempotent:
  assumes "doneCh s < length (doneChans h)" and "\<not> closed (doneChans h ! doneCh s)"
    and "sendMu s < length (mutexes h)" and "\<not> mutexes h ! sendMu s"
    and "recvMu s < length (mutexes h)" and "\<not> mutexes h ! recvMu s"
    and "sendMu s \<noteq> recvMu s"
  shows "fst (Close h s) = Returned None
         \<and> fst (Close (snd (Close h s)) s) = Panicked CloseOfClosedChannel"
proof -
  let ?h' = "h\<lparr>mutexes := (mutexes h)[sendMu s := True, recvMu s := True,
                  recvMu s := False, sendMu s := False],
               doneChans := (doneChans h)[doneCh s := (doneChans h ! doneCh s)\<lparr>closed := True\<rparr>]\<rparr>"
  have first: "Close h s = (Returned None, ?h')"
    using assms by (simp add: Close_def close_chan_def Let_def)
  have free: "\<not> mutexes ?h' ! sendMu s" "\<not> mutexes ?h' ! recvMu s"
    using assms by (simp_all add: nth_list_update)
  have len: "sendMu s < length (mutexes ?h')" "recvMu s < length (mutexes ?h')"
    "doneCh s < length (doneChans ?h')"
    using assms by simp_all
  have cl: "closed (doneChans ?h' ! doneCh s)"
    using assms by simp
  have second: "fst (Close ?h' s) = Panicked CloseOfClosedChannel"
    using free len cl assms(7) by (simp add: Close_def close_chan_def Let_def nth_list_update)
  show ?thesis using first second by simp
qed

theorem Close_not_idempotent_witness:
  "fst (Close (snd (newSafeStream emptyStore 0)) (fst (newSafeStream emptyStore 0))) = Returned None
   \<and> fst (Close (snd (Close (snd (newSafeStream emptyStore 0)) (fst (newSafeStream emptyStore 0))))
          (fst (newSafeStream emptyStore 0))) = Panicked CloseOfClosedChannel"
  by (rule Close_not_idempotent)
     (simp_all add: newSafeStream_def emptyStore_def make_chan_def)

text \<open>
  C4 is what the source's own note asks for and the code does not do:
  \<open>verifyStreamAddress\<close> never returns an error. It accepts every first
  message, with the address the message claims, or the empty address when the
  message carries none; and a call of \<open>Connect\<close> whose context stays live and
  whose stream a listener takes hands the stream to the listener of that address
  and returns no error.
\<close>

theorem verifyStreamAddress_accepts:
  "verifyStreamAddress keccak service message =
     Inr (case streamAddress message of None \<Rightarrow> '''' | Some sa \<Rightarrow> authAddress sa)
   \<and> verifyStreamAddress keccak service unauthenticated = Inr ''''
   \<and> fst (Connect keccak (NewStreamService a) emptyStore 0 (Inr unauthenticated)) = None"
  by (simp add: verifyStreamAddress_def Connect_def setupConn_def NewStreamService_def
      unauthenticated_def Let_def split: option.splits)

section \<open>The router: fragments and the tiebreak\<close>

lemma OrderFragments_keeps:
  "splitSource (orderFragmentSplitter r) = None \<Longrightarrow> concat (map sent (fragmentChans r)) = [] \<Longrightarrow>
   splitSource (orderFragmentSplitter (OrderFragments r)) = None
   \<and> concat (map sent (fragmentChans (OrderFragments r))) = []"
  by (auto simp: OrderFragments_def Subscribe_def make_chan_def Let_def)

lemma OrderFragments_pow:
  fixes r0 :: "'f Router"
  assumes "r0 = NewRouter n ma"
  shows "splitSource (orderFragmentSplitter ((OrderFragments ^^ k) r0)) = None
   \<and> concat (map sent (fragmentChans ((OrderFragments ^^ k) r0))) = []"
proof (induction k)
  case 0
  show ?case by (simp add: assms NewRouter_def NewSplitter_def make_chan_def)
next
  case (Suc k)
  have e: "(OrderFragments ^^ Suc k) r0 = OrderFragments ((OrderFragments ^^ k) r0)"
    by simp
  show ?case
    unfolding e using Suc by (intro OrderFragments_keeps) blast+
qed

text \<open>
  C7 is what the spec prescribes and the code does not do. \<open>NewRouter\<close> never
  attaches the channel that \<open>OnOpenOrder\<close> sends on to the fragment splitter
  (it never calls \<open>Split\<close>, as \<open>setupCompute\<close> does for its splitters).
  Whatever the number of subscribers registered through \<open>OrderFragments\<close>, the
  send in \<open>OnOpenOrder\<close> has no receiver: the call blocks, and no fragment is
  on any channel of the router.
\<close>

theorem OnOpenOrder_blocks:
  fixes fragment :: 'f
  shows "OnOpenOrder ((OrderFragments ^^ k) (NewRouter n ma)) sender fragment = Blocked
   \<and> concat (map sent (fragmentChans ((OrderFragments ^^ k) (NewRouter n ma :: 'f Router)))) = []"
proof -
  note p = OrderFragments_pow [OF refl, of k n ma, where 'f = 'f]
  have "OnOpenOrder ((OrderFragments ^^ k) (NewRouter n ma)) sender fragment = Blocked"
    using conjunct1 [OF p] by (simp add: OnOpenOrder_def Let_def)
  then show ?thesis using conjunct2 [OF p] by blast
qed

lemma bytesCompare_less: "bytesCompare xs ys < 0 \<longleftrightarrow> xs < ys"
  by (induction xs ys rule: bytesCompare.induct) auto

lemma setupCompute_client:
  assumes "idOf (address r) < idOf a"
  shows "calls (setupCompute idOf r a) = calls r @ [ClientPoolCompute a (length (chans r))]"
    and "sent (chans (setupCompute idOf r a) ! length (chans r)) = [greeting r]"
    and "computeSenders (setupCompute idOf r a) a = Some (length (chans r))"
  using assms
  by (simp_all add: setupCompute_def Let_def bytesCompare_less make_chan_def greeting_def)

lemma setupCompute_server:
  assumes "\<not> idOf (address r) < idOf a"
  shows "calls (setupCompute idOf r a) = calls r @ [WaitForCompute a (length (chans r))]"
    and "sent (chans (setupCompute idOf r a) ! length (chans r)) = []"
    and "computeSenders (setupCompute idOf r a) a = Some (length (chans r))"
  using assms
  by (simp_all add: setupCompute_def Let_def bytesCompare_less make_chan_def)

text \<open>
  C2. Two routers whose addresses have different identifiers set up the arc to
  each other. The one whose identifier is smaller in the lexicographic order of
  the bytes calls the client pool and sends its own MultiAddress as the first
  message on the new sender channel; the other one waits for the incoming
  compute stream and sends nothing.
\<close>

theorem setupCompute_tiebreak:
  assumes "idOf (address rA) \<noteq> idOf (address rB)"
  shows "(idOf (address rA) < idOf (address rB)
            \<and> dialsWithGreeting idOf rA (address rB) \<and> waitsSilently idOf rB (address rA))
         \<or> (idOf (address rB) < idOf (address rA)
            \<and> dialsWithGreeting idOf rB (address rA) \<and> waitsSilently idOf rA (address rB))"
proof (cases "idOf (address rA) < idOf (address rB)")
  case True
  then have n: "\<not> idOf (address rB) < idOf (address rA)" by simp
  show ?thesis
    using True setupCompute_client [OF True] setupCompute_server [OF n]
    by (simp add: dialsWithGreeting_def waitsSilently_def)
next
  case False
  then have lt: "idOf (address rB) < idOf (address rA)" using assms by simp
  show ?thesis
    using lt setupCompute_client [OF lt] setupCompute_server [OF False]
    by (simp add: dialsWithGreeting_def waitsSilently_def)
qed

theorem setupCompute_tiebreak_witness:
  "bytes_of (address exRouterA) \<noteq> bytes_of (address exRouterB)
   \<and> bytes_of (address exRouterA) < bytes_of (address exRouterB)
   \<and> dialsWithGreeting bytes_of exRouterA (address exRouterB)
   \<and> waitsSilently bytes_of exRouterB (address exRouterA)"
proof -
  have a: "bytes_of (address exRouterA) = [65]" "bytes_of (address exRouterB) = [66]"
    by (simp_all add: exRouterA_def exRouterB_def NewRouter_def bytes_of_def)
  have ne: "bytes_of (address exRouterA) \<noteq> bytes_of (address exRouterB)"
    by (simp add: a)
  have lt: "bytes_of (address exRouterA) < bytes_of (address exRouterB)"
    "\<not> bytes_of (address exRouterB) < bytes_of (address exRouterA)"
    by (simp_all add: a)
  show ?thesis
    using setupCompute_tiebreak [OF ne] lt ne by blast
qed

section \<open>The router: arcs and their count\<close>

lemma setupCompute_fields:
  "computeSenders (setupCompute idOf r a) = (computeSenders r)(a \<mapsto> length (chans r))"
  "computeReceivers (setupCompute idOf r a) b \<noteq> None \<longleftrightarrow> b = a \<or> computeReceivers r b \<noteq> None"
  "computeErrs (setupCompute idOf r a) b \<noteq> None \<longleftrightarrow> b = a \<or> computeErrs r b \<noteq> None"
  "computeArcs (setupCompute idOf r a) = computeArcs r"
  "length (chans (setupCompute idOf r a)) = Suc (length (chans r))"
  "\<not> closed (chans (setupCompute idOf r a) ! length (chans r))"
  "\<exists>call. calls (setupCompute idOf r a) = calls r @ [call] \<and> callPeer call = a
      \<and> callChan call = length (chans r)"
  by (simp_all add: setupCompute_def Let_def make_chan_def)

lemma setupCompute_old_chan:
  "i < length (chans r) \<Longrightarrow> chans (setupCompute idOf r a) ! i = chans r ! i"
  by (simp add: setupCompute_def Let_def nth_append)

lemma arcsOf_setup: "arcsOf (setupCompute idOf r a) b = arcsOf r b"
  by (simp add: arcsOf_def setupCompute_fields)

lemma arcInv_init: "arcInv (NewRouter n ma) (\<lambda>a. 0)"
  by (simp add: arcInv_def NewRouter_def arcsOf_def)


lemma arcInv_D:
  assumes "arcInv r h"
  shows "arcsOf r a = int (h a)"
    and "(computeSenders r a \<noteq> None) = (0 < h a)"
    and "(computeReceivers r a \<noteq> None) = (0 < h a)"
    and "(computeErrs r a \<noteq> None) = (0 < h a)"
    and "call \<in> set (calls r) \<Longrightarrow> callChan call < length (chans r)"
    and "distinct (map callChan (calls r))"
    and "computeSenders r a = Some c \<Longrightarrow> c < length (chans r) \<and> \<not> closed (chans r ! c)
            \<and> (\<exists>call\<in>set (calls r). callPeer call = a \<and> callChan call = c)"
    and "call \<in> set (calls r) \<Longrightarrow> \<not> closed (chans r ! callChan call) \<Longrightarrow>
            computeSenders r (callPeer call) = Some (callChan call)"
  using assms unfolding arcInv_def by blast+

lemma arcInv_enter_present:
  assumes inv: "arcInv r h" and pres: "computeReceivers r a \<noteq> None"
  shows "arcInv (computeEnter idOf r a) (h(a := Suc (h a)))"
proof -
  let ?r' = "r\<lparr>computeArcs := (computeArcs r)(a \<mapsto> arcsOf r a + 1)\<rparr>"
  have e: "computeEnter idOf r a = ?r'" using pres by (auto simp: computeEnter_def Let_def)
  have pos: "0 < h a" using arcInv_D(3) [OF inv, of a] pres by simp
  show ?thesis
    unfolding e arcInv_def
  proof (intro conjI allI ballI impI)
    fix b show "arcsOf ?r' b = int ((h(a := Suc (h a))) b)"
      using arcInv_D(1) [OF inv, of b] arcInv_D(1) [OF inv, of a] by (simp add: arcsOf_def)
  next
    fix b show "(computeSenders ?r' b \<noteq> None) = (0 < (h(a := Suc (h a))) b)"
      using arcInv_D(2) [OF inv, of b] pos by auto
  next
    fix b show "(computeReceivers ?r' b \<noteq> None) = (0 < (h(a := Suc (h a))) b)"
      using arcInv_D(3) [OF inv, of b] pos by auto
  next
    fix b show "(computeErrs ?r' b \<noteq> None) = (0 < (h(a := Suc (h a))) b)"
      using arcInv_D(4) [OF inv, of b] pos by auto
  next
    fix call assume "call \<in> set (calls ?r')"
    then show "callChan call < length (chans ?r')" using arcInv_D(5) [OF inv] by simp
  next
    show "distinct (map callChan (calls ?r'))" using arcInv_D(6) [OF inv] by simp
  next
    fix b c assume "computeSenders ?r' b = Some c"
    then show "c < length (chans ?r')" "\<not> closed (chans ?r' ! c)"
      "\<exists>call\<in>set (calls ?r'). callPeer call = b \<and> callChan call = c"
      using arcInv_D(7) [OF inv, of b c] by simp_all
  next
    fix call assume "call \<in> set (calls ?r')" "\<not> closed (chans ?r' ! callChan call)"
    then show "computeSenders ?r' (callPeer call) = Some (callChan call)"
      using arcInv_D(8) [OF inv, of call] by simp
  qed
qed


lemma arcInv_enter_absent:
  assumes inv: "arcInv r h" and abs: "computeReceivers r a = None"
  shows "arcInv (computeEnter idOf r a) (h(a := Suc (h a)))"
proof -
  let ?r1 = "setupCompute idOf r a"
  let ?r' = "?r1\<lparr>computeArcs := (computeArcs ?r1)(a \<mapsto> arcsOf ?r1 a + 1)\<rparr>"
  let ?c = "length (chans r)"
  have e: "computeEnter idOf r a = ?r'" using abs by (simp add: computeEnter_def Let_def)
  have zero: "h a = 0" using arcInv_D(3) [OF inv, of a] abs by simp
  have nosender: "computeSenders r a = None" using arcInv_D(2) [OF inv, of a] zero by simp
  obtain call0 where cs: "calls ?r1 = calls r @ [call0]" and cp: "callPeer call0 = a"
    and cc: "callChan call0 = ?c"
    using setupCompute_fields(7) [of idOf r a] by blast
  have old: "chans ?r1 ! i = chans r ! i" if "i < ?c" for i
    using setupCompute_old_chan [OF that] .
  have oldcalls: "callChan call < ?c" if "call \<in> set (calls r)" for call
    using arcInv_D(5) [OF inv that] .
  show ?thesis
    unfolding e arcInv_def
  proof (intro conjI allI ballI impI)
    fix b show "arcsOf ?r' b = int ((h(a := Suc (h a))) b)"
      using arcInv_D(1) [OF inv, of b] arcInv_D(1) [OF inv, of a] zero
      by (simp add: arcsOf_def setupCompute_fields)
  next
    fix b show "(computeSenders ?r' b \<noteq> None) = (0 < (h(a := Suc (h a))) b)"
      using arcInv_D(2) [OF inv, of b] by (simp add: setupCompute_fields)
  next
    fix b show "(computeReceivers ?r' b \<noteq> None) = (0 < (h(a := Suc (h a))) b)"
      using arcInv_D(3) [OF inv, of b] setupCompute_fields(2) [of idOf r a b] by simp
  next
    fix b show "(computeErrs ?r' b \<noteq> None) = (0 < (h(a := Suc (h a))) b)"
      using arcInv_D(4) [OF inv, of b] setupCompute_fields(3) [of idOf r a b] by simp
  next
    fix call assume "call \<in> set (calls ?r')"
    then have "call \<in> set (calls r) \<or> call = call0" using cs by auto
    then show "callChan call < length (chans ?r')"
      using oldcalls [of call] cc by (auto simp: setupCompute_fields(5) less_Suc_eq)
  next
    have "?c \<notin> callChan ` set (calls r)" using oldcalls by fastforce
    then show "distinct (map callChan (calls ?r'))"
      using arcInv_D(6) [OF inv] cs cc by simp
  next
    fix b c assume s: "computeSenders ?r' b = Some c"
    show "c < length (chans ?r')" "\<not> closed (chans ?r' ! c)"
      "\<exists>call\<in>set (calls ?r'). callPeer call = b \<and> callChan call = c"
    proof -
      have "(b = a \<and> c = ?c) \<or> (b \<noteq> a \<and> computeSenders r b = Some c)"
        using s by (auto simp: setupCompute_fields split: if_splits)
      then have "c < length (chans ?r') \<and> \<not> closed (chans ?r' ! c)
        \<and> (\<exists>call\<in>set (calls ?r'). callPeer call = b \<and> callChan call = c)"
      proof
        assume "b = a \<and> c = ?c"
        then show ?thesis
          using setupCompute_fields(6) [of idOf r a] cs cp cc
          by (simp add: setupCompute_fields(5))
      next
        assume o: "b \<noteq> a \<and> computeSenders r b = Some c"
        then have "c < ?c" "\<not> closed (chans r ! c)"
          "\<exists>call\<in>set (calls r). callPeer call = b \<and> callChan call = c"
          using arcInv_D(7) [OF inv, of b c] by simp_all
        then show ?thesis using old [of c] cs by (auto simp: setupCompute_fields(5))
      qed
      then show "c < length (chans ?r')" "\<not> closed (chans ?r' ! c)"
        "\<exists>call\<in>set (calls ?r'). callPeer call = b \<and> callChan call = c"
        by simp_all
    qed
  next
    fix call assume m: "call \<in> set (calls ?r')" and op: "\<not> closed (chans ?r' ! callChan call)"
    have "call \<in> set (calls r) \<or> call = call0" using m cs by auto
    then show "computeSenders ?r' (callPeer call) = Some (callChan call)"
    proof
      assume c: "call \<in> set (calls r)"
      then have "\<not> closed (chans r ! callChan call)" using op old [OF oldcalls [OF c]] by simp
      then have s: "computeSenders r (callPeer call) = Some (callChan call)"
        using arcInv_D(8) [OF inv c] by simp
      then have "callPeer call \<noteq> a" using nosender by auto
      then show ?thesis using s by (simp add: setupCompute_fields)
    next
      assume "call = call0"
      then show ?thesis using cp cc by (simp add: setupCompute_fields)
    qed
  qed
qed

lemma arcInv_enter: "arcInv r h \<Longrightarrow> arcInv (computeEnter idOf r a) (h(a := Suc (h a)))"
  using arcInv_enter_present arcInv_enter_absent by (cases "computeReceivers r a") blast+


lemma computeExit_keep:
  assumes inv: "arcInv r h" and many: "1 < h a"
  shows "computeExit r a = Inr (r\<lparr>computeArcs := (computeArcs r)(a \<mapsto> arcsOf r a - 1)\<rparr>)"
  using arcInv_D(1) [OF inv, of a] many by (simp add: computeExit_def Let_def arcsOf_def)

lemma computeExit_teardown:
  assumes inv: "arcInv r h" and one: "h a = 1"
  shows "\<exists>c. computeSenders r a = Some c \<and> c < length (chans r) \<and> \<not> closed (chans r ! c) \<and>
     computeExit r a = Inr (r\<lparr>computeArcs := (computeArcs r)(a \<mapsto> arcsOf r a - 1),
        chans := (chans r)[c := (chans r ! c)\<lparr>closed := True\<rparr>],
        computeSenders := (computeSenders r)(a := None),
        computeReceivers := (computeReceivers r)(a := None),
        computeErrs := (computeErrs r)(a := None)\<rparr>)"
proof -
  obtain c where s: "computeSenders r a = Some c"
    using arcInv_D(2) [OF inv, of a] one by auto
  have c: "c < length (chans r)" "\<not> closed (chans r ! c)"
    using arcInv_D(7) [OF inv s] by simp_all
  have "arcsOf r a = 1" using arcInv_D(1) [OF inv, of a] one by simp
  then show ?thesis using s c
    by (simp add: computeExit_def teardownCompute_def close_chan_def Let_def arcsOf_def)
qed

lemma arcInv_exit_keep:
  assumes inv: "arcInv r h" and many: "1 < h a"
  shows "arcInv (r\<lparr>computeArcs := (computeArcs r)(a \<mapsto> arcsOf r a - 1)\<rparr>) (h(a := h a - 1))"
proof -
  let ?r' = "r\<lparr>computeArcs := (computeArcs r)(a \<mapsto> arcsOf r a - 1)\<rparr>"
  show ?thesis
    unfolding arcInv_def
  proof (intro conjI allI ballI impI)
    fix b show "arcsOf ?r' b = int ((h(a := h a - 1)) b)"
      using arcInv_D(1) [OF inv, of b] arcInv_D(1) [OF inv, of a] many by (simp add: arcsOf_def)
  next
    fix b show "(computeSenders ?r' b \<noteq> None) = (0 < (h(a := h a - 1)) b)"
      using arcInv_D(2) [OF inv, of b] many by auto
  next
    fix b show "(computeReceivers ?r' b \<noteq> None) = (0 < (h(a := h a - 1)) b)"
      using arcInv_D(3) [OF inv, of b] many by auto
  next
    fix b show "(computeErrs ?r' b \<noteq> None) = (0 < (h(a := h a - 1)) b)"
      using arcInv_D(4) [OF inv, of b] many by auto
  next
    fix call assume "call \<in> set (calls ?r')"
    then show "callChan call < length (chans ?r')" using arcInv_D(5) [OF inv] by simp
  next
    show "distinct (map callChan (calls ?r'))" using arcInv_D(6) [OF inv] by simp
  next
    fix b c assume "computeSenders ?r' b = Some c"
    then show "c < length (chans ?r')" "\<not> closed (chans ?r' ! c)"
      "\<exists>call\<in>set (calls ?r'). callPeer call = b \<and> callChan call = c"
      using arcInv_D(7) [OF inv, of b c] by simp_all
  next
    fix call assume "call \<in> set (calls ?r')" "\<not> closed (chans ?r' ! callChan call)"
    then show "computeSenders ?r' (callPeer call) = Some (callChan call)"
      using arcInv_D(8) [OF inv, of call] by simp
  qed
qed

lemma sender_injective:
  assumes inv: "arcInv r h" and "computeSenders r a = Some c" and "computeSenders r b = Some c"
  shows "a = b"
proof -
  obtain call1 where 1: "call1 \<in> set (calls r)" "callPeer call1 = a" "callChan call1 = c"
    using arcInv_D(7) [OF inv assms(2)] by blast
  obtain call2 where 2: "call2 \<in> set (calls r)" "callPeer call2 = b" "callChan call2 = c"
    using arcInv_D(7) [OF inv assms(3)] by blast
  have "inj_on callChan (set (calls r))"
    using arcInv_D(6) [OF inv] by (simp add: distinct_map)
  then have "call1 = call2" using 1 2 by (auto dest: inj_onD)
  then show ?thesis using 1 2 by simp
qed

lemma arcInv_exit_teardown:
  assumes inv: "arcInv r h" and one: "h a = 1" and s: "computeSenders r a = Some c"
  shows "arcInv (r\<lparr>computeArcs := (computeArcs r)(a \<mapsto> arcsOf r a - 1),
        chans := (chans r)[c := (chans r ! c)\<lparr>closed := True\<rparr>],
        computeSenders := (computeSenders r)(a := None),
        computeReceivers := (computeReceivers r)(a := None),
        computeErrs := (computeErrs r)(a := None)\<rparr>) (h(a := h a - 1))"
proof -
  let ?r' = "r\<lparr>computeArcs := (computeArcs r)(a \<mapsto> arcsOf r a - 1),
        chans := (chans r)[c := (chans r ! c)\<lparr>closed := True\<rparr>],
        computeSenders := (computeSenders r)(a := None),
        computeReceivers := (computeReceivers r)(a := None),
        computeErrs := (computeErrs r)(a := None)\<rparr>"
  have c: "c < length (chans r)" using arcInv_D(7) [OF inv s] by simp
  show ?thesis
    unfolding arcInv_def
  proof (intro conjI allI ballI impI)
    fix b show "arcsOf ?r' b = int ((h(a := h a - 1)) b)"
      using arcInv_D(1) [OF inv, of b] arcInv_D(1) [OF inv, of a] one by (simp add: arcsOf_def)
  next
    fix b show "(computeSenders ?r' b \<noteq> None) = (0 < (h(a := h a - 1)) b)"
      using arcInv_D(2) [OF inv, of b] one by auto
  next
    fix b show "(computeReceivers ?r' b \<noteq> None) = (0 < (h(a := h a - 1)) b)"
      using arcInv_D(3) [OF inv, of b] one by auto
  next
    fix b show "(computeErrs ?r' b \<noteq> None) = (0 < (h(a := h a - 1)) b)"
      using arcInv_D(4) [OF inv, of b] one by auto
  next
    fix call assume "call \<in> set (calls ?r')"
    then show "callChan call < length (chans ?r')" using arcInv_D(5) [OF inv] by simp
  next
    show "distinct (map callChan (calls ?r'))" using arcInv_D(6) [OF inv] by simp
  next
    fix b d assume sb: "computeSenders ?r' b = Some d"
    then have ba: "b \<noteq> a" and o: "computeSenders r b = Some d" by (auto split: if_splits)
    have "d \<noteq> c" using sender_injective [OF inv s] o ba by auto
    then show "d < length (chans ?r')" "\<not> closed (chans ?r' ! d)"
      "\<exists>call\<in>set (calls ?r'). callPeer call = b \<and> callChan call = d"
      using arcInv_D(7) [OF inv o] by simp_all
  next
    fix call assume m: "call \<in> set (calls ?r')" and op: "\<not> closed (chans ?r' ! callChan call)"
    have m': "call \<in> set (calls r)" using m by simp
    have ne: "callChan call \<noteq> c" using op c by (auto simp: nth_list_update)
    then have "\<not> closed (chans r ! callChan call)" using op by simp
    then have o: "computeSenders r (callPeer call) = Some (callChan call)"
      using arcInv_D(8) [OF inv m'] by simp
    then have "callPeer call \<noteq> a" using s ne by auto
    then show "computeSenders ?r' (callPeer call) = Some (callChan call)" using o by simp
  qed
qed

lemma arcInv_exit:
  assumes inv: "arcInv r h" and pos: "0 < h a" and ex: "computeExit r a = Inr r'"
  shows "arcInv r' (h(a := h a - 1))"
proof (cases "h a = 1")
  case True
  obtain c where s: "computeSenders r a = Some c" and
    e: "computeExit r a = Inr (r\<lparr>computeArcs := (computeArcs r)(a \<mapsto> arcsOf r a - 1),
        chans := (chans r)[c := (chans r ! c)\<lparr>closed := True\<rparr>],
        computeSenders := (computeSenders r)(a := None),
        computeReceivers := (computeReceivers r)(a := None),
        computeErrs := (computeErrs r)(a := None)\<rparr>)"
    using computeExit_teardown [OF inv True] by blast
  show ?thesis using arcInv_exit_teardown [OF inv True s] e ex by simp
next
  case False
  then have many: "1 < h a" using pos by simp
  show ?thesis using arcInv_exit_keep [OF inv many] computeExit_keep [OF inv many] ex by simp
qed

lemma reachable_arcInv':
  "reachable idOf n ma st \<Longrightarrow> arcInv (fst st) (snd st)"
proof (induction rule: reachable.induct)
  case init
  show ?case unfolding fst_conv snd_conv by (rule arcInv_init)
next
  case (enter router holders a)
  then have "arcInv router holders" by simp
  then show ?case unfolding fst_conv snd_conv by (rule arcInv_enter)
next
  case (exit router holders a router')
  then have "arcInv router holders" by simp
  then show ?case unfolding fst_conv snd_conv using exit(2,3) by (rule arcInv_exit)
qed

lemma reachable_arcInv: "reachable idOf n ma (r, h) \<Longrightarrow> arcInv r h"
  using reachable_arcInv' [of idOf n ma "(r, h)"] by simp

lemma filter_distinct_key:
  "distinct (map f xs) \<Longrightarrow> x \<in> set xs \<Longrightarrow> filter (\<lambda>y. f y = f x) xs = [x]"
proof (induction xs)
  case Nil
  then show ?case by simp
next
  case (Cons y ys)
  show ?case
  proof (cases "y = x")
    case True
    have "filter (\<lambda>z. f z = f x) ys = []"
      using Cons.prems(1) True by (auto simp: filter_empty_conv image_iff)
    then show ?thesis using True by simp
  next
    case False
    then have x: "x \<in> set ys" using Cons.prems(2) by simp
    then have "f y \<noteq> f x" using Cons.prems(1) by (auto simp: image_iff)
    then show ?thesis using Cons.IH x Cons.prems(1) by simp
  qed
qed

lemma openArcs_count:
  assumes inv: "arcInv r h"
  shows "openArcs r a = (if 0 < h a then 1 else 0)"
proof (cases "computeSenders r a")
  case None
  then have z: "h a = 0" using arcInv_D(2) [OF inv, of a] by simp
  have "filter (\<lambda>call. callPeer call = a \<and> \<not> closed (chans r ! callChan call)) (calls r) = []"
    using arcInv_D(8) [OF inv] None by (fastforce simp: filter_empty_conv)
  then show ?thesis using z by (simp add: openArcs_def)
next
  case (Some c)
  then have p: "0 < h a" using arcInv_D(2) [OF inv, of a] by simp
  obtain call0 where m: "call0 \<in> set (calls r)" and cp: "callPeer call0 = a"
    and cc: "callChan call0 = c" and op: "\<not> closed (chans r ! c)"
    using arcInv_D(7) [OF inv Some] by blast
  have inj: "inj_on callChan (set (calls r))"
    using arcInv_D(6) [OF inv] by (simp add: distinct_map)
  have "filter (\<lambda>call. callPeer call = a \<and> \<not> closed (chans r ! callChan call)) (calls r)
          = filter (\<lambda>call. callChan call = callChan call0) (calls r)"
  proof (rule filter_cong [OF refl])
    fix call assume c: "call \<in> set (calls r)"
    show "(callPeer call = a \<and> \<not> closed (chans r ! callChan call))
            = (callChan call = callChan call0)"
    proof
      assume "callPeer call = a \<and> \<not> closed (chans r ! callChan call)"
      then show "callChan call = callChan call0"
        using arcInv_D(8) [OF inv c] Some cc by simp
    next
      assume "callChan call = callChan call0"
      then have "call = call0" using inj c m by (auto dest: inj_onD)
      then show "callPeer call = a \<and> \<not> closed (chans r ! callChan call)"
        using cp cc op by simp
    qed
  qed
  also have "\<dots> = [call0]" using filter_distinct_key [OF arcInv_D(6) [OF inv] m] .
  finally show ?thesis using p by (simp add: openArcs_def)
qed

lemma computeEnter_count:
  "arcsOf (computeEnter idOf r a) a = arcsOf r a + 1"
  by (simp add: computeEnter_def Let_def arcsOf_def setupCompute_fields)

lemma computeEnter_keeps:
  assumes inv: "arcInv r h" and s: "computeSenders r b = Some c"
  shows "computeSenders (computeEnter idOf r a) b = Some c
         \<and> \<not> closed (chans (computeEnter idOf r a) ! c)"
proof (cases "computeReceivers r a")
  case None
  then have "computeSenders r a = None"
    using arcInv_D(2,3) [OF inv, of a] by simp
  then have ba: "b \<noteq> a" using s by auto
  have c: "c < length (chans r)" "\<not> closed (chans r ! c)"
    using arcInv_D(7) [OF inv s] by simp_all
  show ?thesis
    using None ba s c setupCompute_old_chan [OF c(1), of idOf a]
    by (simp add: computeEnter_def Let_def setupCompute_fields)
next
  case (Some sp)
  then show ?thesis using s arcInv_D(7) [OF inv s]
    by (simp add: computeEnter_def Let_def)
qed


lemma computeExit_step:
  assumes inv: "arcInv r h" and pos: "0 < h a"
  shows "\<exists>r' c. computeExit r a = Inr r' \<and> computeSenders r a = Some c
     \<and> arcsOf r' a = arcsOf r a - 1
     \<and> (if arcsOf r' a = 0
         then computeSenders r' a = None \<and> computeReceivers r' a = None
              \<and> computeErrs r' a = None \<and> closed (chans r' ! c)
         else computeSenders r' a = Some c \<and> computeReceivers r' a = computeReceivers r a
              \<and> computeErrs r' a = computeErrs r a \<and> \<not> closed (chans r' ! c))
     \<and> (\<forall>b d. b \<noteq> a \<longrightarrow> computeSenders r b = Some d \<longrightarrow>
           computeSenders r' b = Some d \<and> \<not> closed (chans r' ! d))"
proof (cases "h a = 1")
  case True
  obtain c where s: "computeSenders r a = Some c" and c: "c < length (chans r)"
    and e: "computeExit r a = Inr (r\<lparr>computeArcs := (computeArcs r)(a \<mapsto> arcsOf r a - 1),
        chans := (chans r)[c := (chans r ! c)\<lparr>closed := True\<rparr>],
        computeSenders := (computeSenders r)(a := None),
        computeReceivers := (computeReceivers r)(a := None),
        computeErrs := (computeErrs r)(a := None)\<rparr>)" (is "_ = Inr ?r'")
    using computeExit_teardown [OF inv True] by blast
  have one: "arcsOf r a = 1" using arcInv_D(1) [OF inv, of a] True by simp
  have others: "\<forall>b d. b \<noteq> a \<longrightarrow> computeSenders r b = Some d \<longrightarrow>
           computeSenders ?r' b = Some d \<and> \<not> closed (chans ?r' ! d)"
  proof (intro allI impI)
    fix b d assume ba: "b \<noteq> a" and o: "computeSenders r b = Some d"
    have "d \<noteq> c" using sender_injective [OF inv s] o ba by auto
    then show "computeSenders ?r' b = Some d \<and> \<not> closed (chans ?r' ! d)"
      using ba o arcInv_D(7) [OF inv o] by simp
  qed
  have "arcsOf ?r' a = arcsOf r a - 1" by (simp add: arcsOf_def)
  moreover have "arcsOf ?r' a = 0" using one by (simp add: arcsOf_def)
  moreover have "computeSenders ?r' a = None \<and> computeReceivers ?r' a = None
              \<and> computeErrs ?r' a = None \<and> closed (chans ?r' ! c)"
    using c by simp
  ultimately show ?thesis using e s others by (intro exI [of _ ?r'] exI [of _ c]) simp
next
  case False
  then have many: "1 < h a" using pos by simp
  let ?r' = "r\<lparr>computeArcs := (computeArcs r)(a \<mapsto> arcsOf r a - 1)\<rparr>"
  have e: "computeExit r a = Inr ?r'" using computeExit_keep [OF inv many] .
  obtain c where s: "computeSenders r a = Some c"
    using arcInv_D(2) [OF inv, of a] pos by auto
  have nz: "arcsOf ?r' a \<noteq> 0" using arcInv_D(1) [OF inv, of a] many by (simp add: arcsOf_def)
  have others: "\<forall>b d. b \<noteq> a \<longrightarrow> computeSenders r b = Some d \<longrightarrow>
           computeSenders ?r' b = Some d \<and> \<not> closed (chans ?r' ! d)"
    using arcInv_D(7) [OF inv] by simp
  have "arcsOf ?r' a = arcsOf r a - 1" by (simp add: arcsOf_def)
  moreover have "computeSenders ?r' a = Some c \<and> computeReceivers ?r' a = computeReceivers r a
              \<and> computeErrs ?r' a = computeErrs r a \<and> \<not> closed (chans ?r' ! c)"
    using s arcInv_D(7) [OF inv s] by simp
  ultimately show ?thesis using e s nz others by (intro exI [of _ ?r'] exI [of _ c]) simp
qed

text \<open>
  C3. In every state that the router reaches through the two critical sections
  of \<open>Compute\<close>, and for every peer: at most one arc to the peer has an open
  stream, and exactly one when the count of the peer is positive; the sender,
  the receivers and the errors of the peer are present exactly when its count
  is positive. The first critical section adds one to the count, and removes no
  entry and closes no sender. The second, which a caller that holds the arc
  runs on release, takes one from the count; it closes the sender of the peer
  and removes its three entries when the count has reached zero, leaves them as
  they are otherwise, and never touches another peer. It does not panic.
\<close>

theorem arc_uniqueness:
  assumes "reachable idOf maxConns ma (router, holders)"
  shows "openArcs router a \<le> 1
    \<and> openArcs router a = (if 0 < arcsOf router a then 1 else 0)
    \<and> (computeSenders router a \<noteq> None) = (0 < arcsOf router a)
    \<and> (computeReceivers router a \<noteq> None) = (0 < arcsOf router a)
    \<and> (computeErrs router a \<noteq> None) = (0 < arcsOf router a)
    \<and> arcsOf (computeEnter idOf router a) a = arcsOf router a + 1
    \<and> (\<forall>b c. computeSenders router b = Some c \<longrightarrow>
          computeSenders (computeEnter idOf router a) b = Some c
          \<and> \<not> closed (chans (computeEnter idOf router a) ! c))
    \<and> (0 < arcsOf router a \<longrightarrow>
         (\<exists>router' c. computeExit router a = Inr router' \<and> computeSenders router a = Some c
            \<and> arcsOf router' a = arcsOf router a - 1
            \<and> (if arcsOf router' a = 0
                then computeSenders router' a = None \<and> computeReceivers router' a = None
                     \<and> computeErrs router' a = None \<and> closed (chans router' ! c)
                else computeSenders router' a = Some c
                     \<and> computeReceivers router' a = computeReceivers router a
                     \<and> computeErrs router' a = computeErrs router a
                     \<and> \<not> closed (chans router' ! c))
            \<and> (\<forall>b d. b \<noteq> a \<longrightarrow> computeSenders router b = Some d \<longrightarrow>
                  computeSenders router' b = Some d \<and> \<not> closed (chans router' ! d))))"
proof -
  have inv: "arcInv router holders" using assms by (rule reachable_arcInv)
  have n: "arcsOf router a = int (holders a)" using arcInv_D(1) [OF inv] .
  have cnt: "openArcs router a = (if 0 < arcsOf router a then 1 else 0)"
    using openArcs_count [OF inv, of a] n by simp
  have le: "openArcs router a \<le> 1" using cnt by simp
  have pres: "(computeSenders router a \<noteq> None) = (0 < arcsOf router a)"
    "(computeReceivers router a \<noteq> None) = (0 < arcsOf router a)"
    "(computeErrs router a \<noteq> None) = (0 < arcsOf router a)"
    using arcInv_D(2,3,4) [OF inv, of a] n by simp_all
  have keeps: "\<forall>b c. computeSenders router b = Some c \<longrightarrow>
          computeSenders (computeEnter idOf router a) b = Some c
          \<and> \<not> closed (chans (computeEnter idOf router a) ! c)"
    using computeEnter_keeps [OF inv] by blast
  have ex: "0 < arcsOf router a \<longrightarrow>
         (\<exists>router' c. computeExit router a = Inr router' \<and> computeSenders router a = Some c
            \<and> arcsOf router' a = arcsOf router a - 1
            \<and> (if arcsOf router' a = 0
                then computeSenders router' a = None \<and> computeReceivers router' a = None
                     \<and> computeErrs router' a = None \<and> closed (chans router' ! c)
                else computeSenders router' a = Some c
                     \<and> computeReceivers router' a = computeReceivers router a
                     \<and> computeErrs router' a = computeErrs router a
                     \<and> \<not> closed (chans router' ! c))
            \<and> (\<forall>b d. b \<noteq> a \<longrightarrow> computeSenders router b = Some d \<longrightarrow>
                  computeSenders router' b = Some d \<and> \<not> closed (chans router' ! d)))"
  proof
    assume "0 < arcsOf router a"
    then have "0 < holders a" using n by simp
    from computeExit_step [OF inv this] show "\<exists>router' c. computeExit router a = Inr router'
            \<and> computeSenders router a = Some c
            \<and> arcsOf router' a = arcsOf router a - 1
            \<and> (if arcsOf router' a = 0
                then computeSenders router' a = None \<and> computeReceivers router' a = None
                     \<and> computeErrs router' a = None \<and> closed (chans router' ! c)
                else computeSenders router' a = Some c
                     \<and> computeReceivers router' a = computeReceivers router a
                     \<and> computeErrs router' a = computeErrs router a
                     \<and> \<not> closed (chans router' ! c))
            \<and> (\<forall>b d. b \<noteq> a \<longrightarrow> computeSenders router b = Some d \<longrightarrow>
                  computeSenders router' b = Some d \<and> \<not> closed (chans router' ! d))" .
  qed
  show ?thesis
    using le cnt pres computeEnter_count [of idOf router a] keeps ex by blast
qed


theorem arc_uniqueness_witness:
  "reachable bytes_of 8 \<lparr>network = ''10.0.0.1:18514'', maAddress = ''A''\<rparr> (exJoined, exHolders)
   \<and> arcsOf exJoined ''B'' = 1
   \<and> computeSenders exJoined ''B'' = Some 0
   \<and> openArcs exJoined ''B'' = 1
   \<and> arcsOf (computeEnter bytes_of exJoined ''B'') ''B'' = 2
   \<and> (\<exists>router'. computeExit exJoined ''B'' = Inr router' \<and> arcsOf router' ''B'' = 0
         \<and> computeSenders router' ''B'' = None \<and> computeReceivers router' ''B'' = None
         \<and> computeErrs router' ''B'' = None \<and> closed (chans router' ! 0))"
proof -
  let ?ma = "\<lparr>network = ''10.0.0.1:18514'', maAddress = ''A''\<rparr>"
  have h: "exHolders = ((\<lambda>a. 0)(''B'' := Suc ((\<lambda>a. 0) ''B'')) :: Address \<Rightarrow> nat)"
    by (simp add: exHolders_def)
  have r: "reachable bytes_of 8 ?ma (exJoined, exHolders)"
    unfolding h exJoined_def exRouterA_def
    by (rule reachable.enter) (rule reachable.init)
  have n: "arcsOf exJoined ''B'' = 1"
    by (simp add: exJoined_def exRouterA_def computeEnter_def NewRouter_def arcsOf_def
        setupCompute_fields Let_def)
  have s: "computeSenders exJoined ''B'' = Some 0"
    by (simp add: exJoined_def exRouterA_def computeEnter_def NewRouter_def
        setupCompute_fields Let_def)
  show ?thesis
    using arc_uniqueness [OF r, of "''B''"] r n s by auto
qed

end
